theory Spec2Isabelle
  imports Main "HOL-Library.Word" "HOL-Library.Multiset" "HOL-Library.FSet" "HOL-Library.Finite_Map"
    "HOL-Library.Sublist"
begin

section \<open>Index abstraction: chunk references (pkg/storage/tsdb/index.go)\<close>

text \<open>
  \<^verbatim>\<open>type ChunkRef struct { User string; Fingerprint model.Fingerprint;
                         Start, End model.Time; Checksum uint32 }\<close>
  \<open>model.Time\<close> is a Go \<open>int64\<close> and \<open>model.Fingerprint\<close> a \<open>uint64\<close>; the fields are
  words of that width and the comparisons of \<open>Less\<close> read the times as signed
  (\<open>sint\<close>).
\<close>

record ChunkRef =
  User :: string
  Fingerprint :: "64 word"
  Start :: "64 word"
  End :: "64 word"
  Checksum :: "32 word"

text \<open>
  \<^verbatim>\<open>func (r ChunkRef) Less(x ChunkRef) bool {
      if r.Start != x.Start { return r.Start < x.Start }
      return r.End <= x.End
  }\<close>
\<close>

definition Less :: "ChunkRef \<Rightarrow> ChunkRef \<Rightarrow> bool" where
  "Less r x = (if Start r \<noteq> Start x then sint (Start r) < sint (Start x)
               else sint (End r) \<le> sint (End x))"

section \<open>Query grouper (pkg/storage/stores/shipper/util/queries.go)\<close>

text \<open>
  \<open>chunk.IndexQuery\<close> is declared outside the files at hand; the code here reads its
  fields \<open>TableName\<close> and \<open>HashValue\<close> only. The record is extensible, so every further
  field of the Go struct lives in the record's extension and is carried along
  untouched.
\<close>

record IndexQuery =
  TableName :: string
  HashValue :: string

text \<open>
  A Go \<open>map[string][]chunk.IndexQuery\<close> is a finite map. Reading a missing key gives
  the nil slice, to which \<open>append\<close> appends as to the empty slice.
\<close>

definition lookup_slice :: "(string, 'q list) fmap \<Rightarrow> string \<Rightarrow> 'q list" where
  "lookup_slice m t = (case fmlookup m t of None \<Rightarrow> [] | Some qs \<Rightarrow> qs)"

text \<open>
  One iteration of the loop of \<open>QueriesByTable\<close>:
  \<^verbatim>\<open>if _, ok := queriesByTable[query.TableName]; !ok {
      queriesByTable[query.TableName] = []chunk.IndexQuery{}
  }
  queriesByTable[query.TableName] = append(queriesByTable[query.TableName], query)\<close>
\<close>

definition QueriesByTable_step ::
  "(string, 'a IndexQuery_scheme list) fmap \<Rightarrow> 'a IndexQuery_scheme
    \<Rightarrow> (string, 'a IndexQuery_scheme list) fmap" where
  "QueriesByTable_step queriesByTable query =
     (let m1 = (if fmlookup queriesByTable (TableName query) = None
                then fmupd (TableName query) [] queriesByTable
                else queriesByTable)
      in fmupd (TableName query) (lookup_slice m1 (TableName query) @ [query]) m1)"

definition QueriesByTable ::
  "'a IndexQuery_scheme list \<Rightarrow> (string, 'a IndexQuery_scheme list) fmap" where
  "QueriesByTable queries = foldl QueriesByTable_step fmempty queries"

section \<open>Dedup layer (pkg/storage/stores/shipper/util/queries.go)\<close>

text \<open>
  \<^verbatim>\<open>type IndexDeduper struct {
      callback        chunk.QueryPagesCallback
      seenRangeValues map[string]map[string]struct{}
      numEntriesSent  int
      mtx             sync.RWMutex
  }\<close>
  The record holds the mutable data of the struct. \<open>seenRangeValues\<close> is a finite map
  from hash values to finite sets of range values (\<open>map[string]struct{}\<close> is Go's
  set). \<open>numEntriesSent\<close> is a Go \<open>int\<close>; it is incremented once for each pair
  stored in the map, so it stays far below \<open>2 ^ 63\<close> and is modelled unbounded.
  The \<open>callback\<close> field is fixed at construction and is passed to \<open>Callback\<close> as an
  argument; the mutex appears as the atomicity of the two critical sections of
  \<open>isSeen\<close> below. Byte slices and strings are both \<open>string\<close> (a list of bytes), so
  \<open>GetUnsafeString\<close> is the identity.
\<close>

record IndexDeduper =
  seenRangeValues :: "(string, string fset) fmap"
  numEntriesSent :: int

text \<open>\<^verbatim>\<open>&IndexDeduper{callback: callback, seenRangeValues: map[string]map[string]struct{}{}}\<close>\<close>

definition NewIndexDeduper :: IndexDeduper where
  "NewIndexDeduper = \<lparr>seenRangeValues = fmempty, numEntriesSent = 0\<rparr>"

text \<open>
  \<^verbatim>\<open>_, ok := i.seenRangeValues[hashValue][rangeValueStr]\<close>: a missing hash value
  gives the nil inner map, in which no key is present.
\<close>

definition seenRange :: "IndexDeduper \<Rightarrow> string \<Rightarrow> string \<Rightarrow> bool" where
  "seenRange i hashValue rangeValue =
     (case fmlookup (seenRangeValues i) hashValue of
        None \<Rightarrow> False
      | Some rs \<Rightarrow> rangeValue |\<in>| rs)"

text \<open>
  The first critical section of \<open>isSeen\<close>, under \<open>mtx.RLock()\<close>: it answers
  \<open>true\<close> for the call when the pair is present and changes nothing.
\<close>

definition isSeen_RLocked :: "IndexDeduper \<Rightarrow> string \<Rightarrow> string \<Rightarrow> bool" where
  "isSeen_RLocked i hashValue rangeValue = seenRange i hashValue rangeValue"

text \<open>
  The second critical section, under \<open>mtx.Lock()\<close>:
  \<^verbatim>\<open>if _, ok := i.seenRangeValues[hashValue][rangeValueStr]; ok { return true }
  if _, ok := i.seenRangeValues[hashValue]; !ok {
      i.seenRangeValues[hashValue] = map[string]struct{}{}
  }
  i.seenRangeValues[hashValue][rangeValueStr] = struct{}{}
  i.numEntriesSent++
  return false\<close>
\<close>

definition isSeen_Locked :: "IndexDeduper \<Rightarrow> string \<Rightarrow> string \<Rightarrow> bool \<times> IndexDeduper" where
  "isSeen_Locked i hashValue rangeValue =
     (if seenRange i hashValue rangeValue then (True, i)
      else
        let m1 = (if fmlookup (seenRangeValues i) hashValue = None
                  then fmupd hashValue {||} (seenRangeValues i)
                  else seenRangeValues i);
            rs = (case fmlookup m1 hashValue of None \<Rightarrow> {||} | Some rs \<Rightarrow> rs);
            m2 = fmupd hashValue (finsert rangeValue rs) m1
        in (False, i\<lparr>seenRangeValues := m2, numEntriesSent := numEntriesSent i + 1\<rparr>))"

text \<open>
  \<open>isSeen\<close> run by one goroutine with no other goroutine in between: the read-locked
  check, then the write-locked section.
\<close>

definition isSeen :: "IndexDeduper \<Rightarrow> string \<Rightarrow> string \<Rightarrow> bool \<times> IndexDeduper" where
  "isSeen i hashValue rangeValue =
     (if isSeen_RLocked i hashValue rangeValue then (True, i)
      else isSeen_Locked i hashValue rangeValue)"

text \<open>
  The number of pairs stored in \<open>seenRangeValues\<close>: the sizes of the inner sets, summed
  over the hash values of the outer map.
\<close>

definition storedPairs :: "IndexDeduper \<Rightarrow> nat" where
  "storedPairs i =
     (\<Sum>h \<in> fmdom' (seenRangeValues i).
        case fmlookup (seenRangeValues i) h of None \<Rightarrow> 0 | Some rs \<Rightarrow> fcard rs)"

subsection \<open>Read batches and the filtering iterator\<close>

text \<open>
  \<open>chunk.ReadBatch\<close> and \<open>chunk.ReadBatchIterator\<close> are interfaces of the backing
  store. A batch is the finite sequence of its entries, each a range value and a
  value; \<open>Iterator()\<close> starts a fresh forward pass. The iterator is the entries not
  yet visited and the entry under the cursor; \<open>Next()\<close> moves the cursor and
  \<open>RangeValue()\<close> reads it.
\<close>

type_synonym Entry = "string \<times> string"

type_synonym ReadBatch = "Entry list"

record ReadBatchIterator =
  remaining :: "Entry list"
  current :: "Entry option"

definition ReadBatch_Iterator :: "ReadBatch \<Rightarrow> ReadBatchIterator" where
  "ReadBatch_Iterator batch = \<lparr>remaining = batch, current = None\<rparr>"

definition ReadBatchIterator_Next :: "ReadBatchIterator \<Rightarrow> bool \<times> ReadBatchIterator" where
  "ReadBatchIterator_Next it =
     (case remaining it of
        [] \<Rightarrow> (False, \<lparr>remaining = [], current = None\<rparr>)
      | e # es \<Rightarrow> (True, \<lparr>remaining = es, current = Some e\<rparr>))"

definition RangeValue :: "ReadBatchIterator \<Rightarrow> string" where
  "RangeValue it = (case current it of None \<Rightarrow> [] | Some e \<Rightarrow> fst e)"

definition Value :: "ReadBatchIterator \<Rightarrow> string" where
  "Value it = (case current it of None \<Rightarrow> [] | Some e \<Rightarrow> snd e)"

text \<open>
  \<^verbatim>\<open>type filteringBatch struct { query chunk.IndexQuery; chunk.ReadBatch; isSeen isSeen }\<close>
  and \<open>filteringBatchIter\<close> likewise. The field \<open>isSeen\<close> is always the method of the
  deduper that built the batch, so the operations take that deduper's state.
\<close>

record 'a filteringBatch =
  fb_query :: "'a IndexQuery_scheme"
  fb_ReadBatch :: ReadBatch

record 'a filteringBatchIter =
  fi_query :: "'a IndexQuery_scheme"
  fi_ReadBatchIterator :: ReadBatchIterator

definition filteringBatch_Iterator :: "'a filteringBatch \<Rightarrow> 'a filteringBatchIter" where
  "filteringBatch_Iterator f =
     \<lparr>fi_query = fb_query f, fi_ReadBatchIterator = ReadBatch_Iterator (fb_ReadBatch f)\<rparr>"

text \<open>
  \<^verbatim>\<open>func (f *filteringBatchIter) Next() bool {
      for f.ReadBatchIterator.Next() {
          if f.isSeen(f.query.HashValue, f.ReadBatchIterator.RangeValue()) { continue }
          return true
      }
      return false
  }\<close>
  run by one goroutine with no other goroutine in between.
\<close>

function filteringBatchIter_Next ::
  "'a filteringBatchIter \<Rightarrow> IndexDeduper \<Rightarrow> bool \<times> 'a filteringBatchIter \<times> IndexDeduper" where
  "filteringBatchIter_Next f i =
     (case ReadBatchIterator_Next (fi_ReadBatchIterator f) of
        (False, it) \<Rightarrow> (False, f\<lparr>fi_ReadBatchIterator := it\<rparr>, i)
      | (True, it) \<Rightarrow>
          (case isSeen i (HashValue (fi_query f)) (RangeValue it) of
             (True, i') \<Rightarrow> filteringBatchIter_Next (f\<lparr>fi_ReadBatchIterator := it\<rparr>) i'
           | (False, i') \<Rightarrow> (True, f\<lparr>fi_ReadBatchIterator := it\<rparr>, i')))"
  by pat_completeness auto
termination
  by (relation "measure (\<lambda>(f, i). length (remaining (fi_ReadBatchIterator f)))")
     (auto simp: ReadBatchIterator_Next_def split: list.splits)

declare filteringBatchIter_Next.simps [simp del]

text \<open>
  \<^verbatim>\<open>func (i *IndexDeduper) Callback(query chunk.IndexQuery, batch chunk.ReadBatch) bool {
      return i.callback(query, &filteringBatch{query: query, ReadBatch: batch, isSeen: i.isSeen})
  }\<close>
  A \<open>QueryPagesCallback\<close> reads the batch it is given and updates what it
  accumulates; reading a filtering batch updates the deduper. So a callback is a
  function of the query, the batch and the state (the deduper's and its own),
  returning its boolean and the new state.
\<close>

type_synonym ('a, 'u) QueryPagesCallback =
  "'a IndexQuery_scheme \<Rightarrow> 'a filteringBatch \<Rightarrow> IndexDeduper \<times> 'u \<Rightarrow> bool \<times> IndexDeduper \<times> 'u"

definition Callback ::
  "('a, 'u) QueryPagesCallback \<Rightarrow> 'a IndexQuery_scheme \<Rightarrow> ReadBatch
    \<Rightarrow> IndexDeduper \<times> 'u \<Rightarrow> bool \<times> IndexDeduper \<times> 'u" where
  "Callback callback query batch =
     callback query \<lparr>fb_query = query, fb_ReadBatch = batch\<rparr>"

text \<open>
  Two ways to observe \<open>Callback\<close>. \<open>recording\<close> wraps a callback and appends each
  invocation's arguments to a log kept in the downstream state. \<open>consume_all\<close> is
  the usual consumer's loop
  \<^verbatim>\<open>for it.Next() { collect it.RangeValue(), it.Value() }\<close>
  returning the entries the iterator yields.
\<close>

definition recording ::
  "('a, 'u) QueryPagesCallback
    \<Rightarrow> ('a, 'u \<times> ('a IndexQuery_scheme \<times> 'a filteringBatch) list) QueryPagesCallback" where
  "recording callback query batch s =
     (case s of (i, u, log) \<Rightarrow>
        (case callback query batch (i, u) of
           (r, i', u') \<Rightarrow> (r, i', u', log @ [(query, batch)])))"

function consume_all ::
  "'a filteringBatchIter \<Rightarrow> IndexDeduper \<Rightarrow> Entry list \<times> 'a filteringBatchIter \<times> IndexDeduper" where
  "consume_all it i =
     (case filteringBatchIter_Next it i of
        (False, it', i') \<Rightarrow> ([], it', i')
      | (True, it', i') \<Rightarrow>
          (case consume_all it' i' of
             (out, r) \<Rightarrow>
               ((RangeValue (fi_ReadBatchIterator it'), Value (fi_ReadBatchIterator it')) # out, r)))"
  by pat_completeness auto
termination
proof (relation "measure (\<lambda>(it, i). length (remaining (fi_ReadBatchIterator it)))")
  show "wf (measure (\<lambda>(it, i). length (remaining (fi_ReadBatchIterator it))))"
    by simp
next
  fix it :: "'a filteringBatchIter" and i :: IndexDeduper
    and x :: bool and xa :: "'a filteringBatchIter \<times> IndexDeduper"
    and y :: "'a filteringBatchIter" and ya :: IndexDeduper
  assume a: "(x, xa) = filteringBatchIter_Next it i" "x = True" "(y, ya) = xa"
  have shorter: "filteringBatchIter_Next f j = (True, f2, j2)
      \<Longrightarrow> length (remaining (fi_ReadBatchIterator f2)) < length (remaining (fi_ReadBatchIterator f))"
    for f :: "'a filteringBatchIter" and j f2 j2
  proof (induction f j rule: filteringBatchIter_Next.induct)
    case (1 f j)
    show ?case
    proof (cases "remaining (fi_ReadBatchIterator f)")
      case Nil
      with "1.prems" show ?thesis
        by (subst (asm) filteringBatchIter_Next.simps) (simp add: ReadBatchIterator_Next_def)
    next
      case (Cons e es)
      let ?it = "\<lparr>remaining = es, current = Some e\<rparr>"
      have n: "ReadBatchIterator_Next (fi_ReadBatchIterator f) = (True, ?it)"
        using Cons by (simp add: ReadBatchIterator_Next_def)
      obtain b j' where s: "isSeen j (HashValue (fi_query f)) (RangeValue ?it) = (b, j')"
        by (cases "isSeen j (HashValue (fi_query f)) (RangeValue ?it)")
      show ?thesis
      proof (cases b)
        case True
        with "1.prems" n s
        have "filteringBatchIter_Next (f\<lparr>fi_ReadBatchIterator := ?it\<rparr>) j' = (True, f2, j2)"
          by (subst (asm) filteringBatchIter_Next.simps) simp
        with "1.IH"[OF n[symmetric] refl s[symmetric]] True
        have "length (remaining (fi_ReadBatchIterator f2)) < length es" by simp
        with Cons show ?thesis by simp
      next
        case False
        with "1.prems" n s have "f2 = f\<lparr>fi_ReadBatchIterator := ?it\<rparr>"
          by (subst (asm) filteringBatchIter_Next.simps) simp
        with Cons show ?thesis by simp
      qed
    qed
  qed
  from a have "filteringBatchIter_Next it i = (True, y, ya)" by simp
  from shorter[OF this]
  show "((y, ya), (it, i)) \<in> measure (\<lambda>(it, i). length (remaining (fi_ReadBatchIterator it)))"
    by simp
qed

declare consume_all.simps [simp del]

text \<open>
  A reference for the filtering view, to compare the iterator with: the entries of
  a batch that one pass lets through, as a function of the range values recorded
  before the pass (for the hash value of the query). An entry passes when its
  range value is neither recorded before the pass nor carried by an earlier entry
  of the batch.
\<close>

fun filtered_view :: "(string \<Rightarrow> bool) \<Rightarrow> Entry list \<Rightarrow> Entry list" where
  "filtered_view recorded [] = []"
| "filtered_view recorded (e # es) =
     (if recorded (fst e) then filtered_view recorded es
      else e # filtered_view (\<lambda>r. r = fst e \<or> recorded r) es)"

section \<open>Parallel query executor (pkg/storage/stores/shipper/util/queries.go)\<close>

text \<open>\<^verbatim>\<open>const maxQueriesPerGoroutine = 100\<close>\<close>

definition maxQueriesPerGoroutine :: nat where
  "maxQueriesPerGoroutine = 100"

text \<open>The Go slice expression \<open>xs[lo:hi]\<close>, for \<open>lo \<le> hi \<le> len(xs)\<close>.\<close>

definition slice :: "'q list \<Rightarrow> nat \<Rightarrow> nat \<Rightarrow> 'q list" where
  "slice xs lo hi = take (hi - lo) (drop lo xs)"

text \<open>
  The dispatch loop, returning the argument of each goroutine in spawning order:
  \<^verbatim>\<open>for i := 0; i < len(queries); i += maxQueriesPerGoroutine {
      q := queries[i:util_math.Min(i+maxQueriesPerGoroutine, len(queries))]
      go func(queries []chunk.IndexQuery) { ... }(q)
  }\<close>
  \<open>i\<close> stays below \<open>len(queries) + 100\<close>, within Go's \<open>int\<close> for every slice that
  fits in memory, so it is a natural number here.
\<close>

function dispatch_loop :: "nat \<Rightarrow> 'q list \<Rightarrow> 'q list list" where
  "dispatch_loop i queries =
     (if i < length queries
      then slice queries i (min (i + maxQueriesPerGoroutine) (length queries))
             # dispatch_loop (i + maxQueriesPerGoroutine) queries
      else [])"
  by pat_completeness auto
termination
  by (relation "measure (\<lambda>(i, queries). length queries - i)")
     (auto simp: maxQueriesPerGoroutine_def)

declare dispatch_loop.simps [simp del]

text \<open>
  \<open>TableQuerier\<close> is the interface of the backing store. What one call
  \<open>MultiQueries(ctx, queries, callback)\<close> does is given by the pages (query and read
  batch) it hands to the callback, in order, and the error it returns (\<open>None\<close> is
  Go's \<open>nil\<close>); a querier is a function from the queries of a call to that.
  The call is taken to return: a querier that blocks for ever keeps
  \<open>DoParallelQueries\<close> waiting for ever.
\<close>

type_synonym ('a, 'e) TableQuerier =
  "'a IndexQuery_scheme list \<Rightarrow> ('a IndexQuery_scheme \<times> ReadBatch) list \<times> 'e option"

text \<open>
  The downstream callback of the executor model reads every batch to its end and
  records each entry the filtering iterator yields, with the query it came for.
\<close>

definition record_all_callback :: "('a, ('a IndexQuery_scheme \<times> Entry) list) QueryPagesCallback" where
  "record_all_callback query batch s =
     (case s of (i, got) \<Rightarrow>
        (case consume_all (filteringBatch_Iterator batch) i of
           (out, it', i') \<Rightarrow> (True, i', got @ map (Pair query) out)))"

text \<open>One \<open>MultiQueries\<close> call run on its own: the callback is applied to each page in turn.\<close>

definition MultiQueries_pages ::
  "('a IndexQuery_scheme \<times> ReadBatch) list
    \<Rightarrow> ('a IndexQuery_scheme \<Rightarrow> ReadBatch \<Rightarrow> IndexDeduper \<times> 'u \<Rightarrow> bool \<times> IndexDeduper \<times> 'u)
    \<Rightarrow> IndexDeduper \<times> 'u \<Rightarrow> IndexDeduper \<times> 'u" where
  "MultiQueries_pages pages cb s = foldl (\<lambda>s (q, b). snd (cb q b s)) s pages"

text \<open>
  The goroutines of the fan-out run interleaved. A goroutine is one \<open>MultiQueries\<close>
  call followed by the send of its result on \<open>errs\<close>; what it does to shared state
  is the sequence of \<open>isSeen\<close> calls made while the downstream callback reads its
  pages, and each \<open>isSeen\<close> call is two atomic steps (the read-locked check, and
  the write-locked section when the check did not find the pair). Whatever the
  querier and the callback of a run decide along the way, the run makes some such
  sequence of calls; the properties below are proved for every sequence and every
  interleaving.
  A worker is: the entries it has still to pass through the filter (each with its
  query), whether it stands between the two critical sections of the call for the
  head entry, the error its \<open>MultiQueries\<close> call returns, and whether it has sent it.
\<close>

record ('a, 'e) worker =
  todo :: "('a IndexQuery_scheme \<times> Entry) list"
  locking :: bool
  outcome :: "'e option"
  reported :: bool

definition page_entries ::
  "('a IndexQuery_scheme \<times> ReadBatch) list \<Rightarrow> ('a IndexQuery_scheme \<times> Entry) list" where
  "page_entries pages = concat (map (\<lambda>(q, b). map (Pair q) b) pages)"

definition spawn :: "('a IndexQuery_scheme \<times> ReadBatch) list \<times> 'e option \<Rightarrow> ('a, 'e) worker" where
  "spawn run = \<lparr>todo = page_entries (fst run), locking = False, outcome = snd run, reported = False\<rparr>"

text \<open>
  The state of one fan-out: the shared deduper, the workers, the coordinator's loop
  variable and \<open>lastErr\<close> of
  \<^verbatim>\<open>var lastErr error
  for i := 0; i < len(queries); i += maxQueriesPerGoroutine {
      err := <-errs
      if err != nil { lastErr = err }
  }
  return lastErr\<close>
  and three logs: the values received on \<open>errs\<close>, the workers that sent them, and the
  entries allowed through to the downstream callback, each in order of occurrence.
\<close>

record ('a, 'e) exec_state =
  deduper :: IndexDeduper
  workers :: "('a, 'e) worker list"
  recv_i :: nat
  q_lastErr :: "'e option"
  received :: "'e option list"
  senders :: "nat list"
  delivered :: "('a IndexQuery_scheme \<times> Entry) list"

definition exec_init :: "IndexDeduper \<Rightarrow> ('a, 'e) worker list \<Rightarrow> ('a, 'e) exec_state" where
  "exec_init d ws = \<lparr>deduper = d, workers = ws, recv_i = 0, q_lastErr = None,
                      received = [], senders = [], delivered = []\<rparr>"

text \<open>
  One atomic step of worker \<open>w\<close>, where \<open>n\<close> is \<open>len(queries)\<close>:
  the send on \<open>errs\<close> (which the coordinator's receive takes, running one round of
  its loop) when the worker's call has returned; else the read-locked check of
  \<open>isSeen\<close> for the head entry, or its write-locked section. A step that is not
  enabled leaves the state as it is.
\<close>

definition worker_step :: "nat \<Rightarrow> nat \<Rightarrow> ('a, 'e) exec_state \<Rightarrow> ('a, 'e) exec_state" where
  "worker_step n w s =
     (if length (workers s) \<le> w then s
      else
        let wk = workers s ! w in
        if reported wk then s
        else
          (case todo wk of
             [] \<Rightarrow>
               if recv_i s < n
               then s\<lparr>workers := (workers s)[w := wk\<lparr>reported := True\<rparr>],
                      recv_i := recv_i s + maxQueriesPerGoroutine,
                      q_lastErr := (if outcome wk \<noteq> None then outcome wk else q_lastErr s),
                      received := received s @ [outcome wk],
                      senders := senders s @ [w]\<rparr>
               else s
           | (q, e) # rest \<Rightarrow>
               if \<not> locking wk
               then (if isSeen_RLocked (deduper s) (HashValue q) (fst e)
                     then s\<lparr>workers := (workers s)[w := wk\<lparr>todo := rest\<rparr>]\<rparr>
                     else s\<lparr>workers := (workers s)[w := wk\<lparr>locking := True\<rparr>]\<rparr>)
               else
                 (case isSeen_Locked (deduper s) (HashValue q) (fst e) of
                    (seen, i') \<Rightarrow>
                      s\<lparr>deduper := i',
                        workers := (workers s)[w := wk\<lparr>todo := rest, locking := False\<rparr>],
                        delivered := (if seen then delivered s else delivered s @ [(q, e)])\<rparr>)))"

text \<open>A schedule is the sequence of workers that take the steps.\<close>

definition exec_run :: "nat \<Rightarrow> nat list \<Rightarrow> ('a, 'e) exec_state \<Rightarrow> ('a, 'e) exec_state" where
  "exec_run n sched s = foldl (\<lambda>s w. worker_step n w s) s sched"

text \<open>
  Readings of the logs: the (hash value, range value) pair \<open>isSeen\<close> is asked about
  for an entry, and the error the receive loop is left with after a sequence of
  received values (\<open>if err != nil { lastErr = err }\<close> on each).
\<close>

definition pairOf :: "'a IndexQuery_scheme \<times> Entry \<Rightarrow> string \<times> string" where
  "pairOf x = (HashValue (fst x), fst (snd x))"

definition last_error :: "'e option list \<Rightarrow> 'e option" where
  "last_error errs = foldl (\<lambda>lastErr err. if err \<noteq> None then err else lastErr) None errs"

text \<open>
  A measure of the work a fan-out has left: two steps for each entry a worker has
  to filter (one when it stands between the critical sections) and one for its send.
\<close>

definition worker_left :: "('a, 'e) worker \<Rightarrow> nat" where
  "worker_left wk =
     (if reported wk then 0
      else 2 * length (todo wk) + 1 - (if locking wk \<and> todo wk \<noteq> [] then 1 else 0))"

definition exec_left :: "('a, 'e) exec_state \<Rightarrow> nat" where
  "exec_left s = sum_list (map worker_left (workers s))"

text \<open>
  What a call of \<open>DoParallelQueries\<close> gives back and does: the returned error, the
  query lists of the \<open>MultiQueries\<close> calls it made, in dispatch order, the entries
  that reached the downstream callback, and the calls (by their position in
  \<open>calls\<close>) in the order in which their results came back to the caller.
\<close>

record ('a, 'e) exec_result =
  returned :: "'e option"
  calls :: "'a IndexQuery_scheme list list"
  sent :: "('a IndexQuery_scheme \<times> Entry) list"
  arrivals :: "nat list"

text \<open>
  \<^verbatim>\<open>if len(queries) == 0 { return nil }
  id := NewIndexDeduper(callback)
  if len(queries) <= maxQueriesPerGoroutine {
      return tableQuerier.MultiQueries(ctx, queries, id.Callback)
  }
  ... dispatch loop ... receive loop ...
  return lastErr\<close>
  The result is \<open>None\<close> when the schedule given ends before the coordinator has
  left its receive loop.
\<close>

definition DoParallelQueries ::
  "('a, 'e) TableQuerier \<Rightarrow> 'a IndexQuery_scheme list \<Rightarrow> nat list \<Rightarrow> ('a, 'e) exec_result option" where
  "DoParallelQueries tableQuerier queries sched =
     (if length queries = 0
      then Some \<lparr>returned = None, calls = [], sent = [], arrivals = []\<rparr>
      else
        let id0 = NewIndexDeduper in
        if length queries \<le> maxQueriesPerGoroutine
        then
          (case tableQuerier queries of
             (pages, err) \<Rightarrow>
               (case MultiQueries_pages pages (Callback record_all_callback) (id0, []) of
                  (id', got) \<Rightarrow>
                    Some \<lparr>returned = err, calls = [queries], sent = got, arrivals = [0]\<rparr>))
        else
          let groups = dispatch_loop 0 queries;
              s = exec_run (length queries) sched
                    (exec_init id0 (map (\<lambda>g. spawn (tableQuerier g)) groups))
          in if recv_i s < length queries then None
             else Some \<lparr>returned = q_lastErr s, calls = groups, sent = delivered s,
                        arrivals = senders s\<rparr>)"

section \<open>Parallel chunk fetcher (pkg/storage/chunk/util/parallel_chunk_fetch.go)\<close>

text \<open>
  \<open>GetParallelChunks(ctx, maxParallel, chunks, f)\<close>. The decode function \<open>f\<close> is
  taken to return, with an error (\<open>Inl\<close>) or a chunk (\<open>Inr\<close>), and its answer to depend
  on the chunk only. A producer goroutine sends the chunks, in order, on the
  unbuffered channel \<open>queuedChunks\<close>;
  \<open>min(maxParallel, len(chunks))\<close> workers run
  \<^verbatim>\<open>for c := range queuedChunks {
      c, err := f(ctx, decodeContext, c)
      if err != nil { errors <- err } else { processedChunks <- c }
  }\<close>
  and the coordinator runs
  \<^verbatim>\<open>result := make([]chunk.Chunk, 0, len(chunks))
  var lastErr error
  for i := 0; i < len(chunks); i++ {
      select {
      case chunk := <-processedChunks: result = append(result, chunk)
      case err := <-errors: lastErr = err
      }
  }
  return result, lastErr\<close>
  The state: the chunks the producer has still to send; for each worker the outcome
  it is blocked sending (\<open>None\<close> while it waits on \<open>queuedChunks\<close>); the
  coordinator's \<open>result\<close>, \<open>lastErr\<close> and \<open>i\<close>; and two logs, the outcomes in the order
  the coordinator received them and the chunks \<open>f\<close> was called on.
\<close>

record ('c, 'e) fetch_state =
  queuedChunks :: "'c list"
  holding :: "('e + 'c) option list"
  result :: "'c list"
  f_lastErr :: "'e option"
  loop_i :: nat
  observed :: "('e + 'c) list"
  decoded :: "'c list"

text \<open>\<^verbatim>\<open>func min(a, b int) int { if a < b { return a }; return b }\<close>\<close>

definition min_int :: "int \<Rightarrow> int \<Rightarrow> int" where
  "min_int a b = (if a < b then a else b)"

text \<open>
  \<^verbatim>\<open>for i := 0; i < min(maxParallel, len(chunks)); i++ { go func() { ... }() }\<close>
  spawns no worker when the bound is zero or negative.
\<close>

definition fetch_init :: "int \<Rightarrow> 'c list \<Rightarrow> ('c, 'e) fetch_state" where
  "fetch_init maxParallel chunks =
     \<lparr>queuedChunks = chunks,
      holding = replicate (nat (min_int maxParallel (int (length chunks)))) None,
      result = [], f_lastErr = None, loop_i = 0, observed = [], decoded = []\<rparr>"

text \<open>
  The atomic steps. \<open>Take w\<close>: worker \<open>w\<close>, waiting on \<open>queuedChunks\<close>, receives the
  next chunk from the producer and calls \<open>f\<close> on it. \<open>Deliver w\<close>: the coordinator,
  still in its loop, receives the outcome worker \<open>w\<close> is sending. A step that is not
  enabled leaves the state as it is.
\<close>

datatype event = Take nat | Deliver nat

fun fetch_step ::
  "nat \<Rightarrow> ('c \<Rightarrow> 'e + 'c) \<Rightarrow> event \<Rightarrow> ('c, 'e) fetch_state \<Rightarrow> ('c, 'e) fetch_state" where
  "fetch_step n f (Take w) s =
     (if w < length (holding s) \<and> holding s ! w = None
      then (case queuedChunks s of
              [] \<Rightarrow> s
            | c # cs \<Rightarrow> s\<lparr>queuedChunks := cs,
                          holding := (holding s)[w := Some (f c)],
                          decoded := decoded s @ [c]\<rparr>)
      else s)"
| "fetch_step n f (Deliver w) s =
     (if w < length (holding s) \<and> loop_i s < n
      then (case holding s ! w of
              None \<Rightarrow> s
            | Some (Inr chunk) \<Rightarrow>
                s\<lparr>holding := (holding s)[w := None],
                  result := result s @ [chunk],
                  loop_i := loop_i s + 1,
                  observed := observed s @ [Inr chunk]\<rparr>
            | Some (Inl err) \<Rightarrow>
                s\<lparr>holding := (holding s)[w := None],
                  f_lastErr := Some err,
                  loop_i := loop_i s + 1,
                  observed := observed s @ [Inl err]\<rparr>)
      else s)"

definition fetch_run ::
  "nat \<Rightarrow> ('c \<Rightarrow> 'e + 'c) \<Rightarrow> event list \<Rightarrow> ('c, 'e) fetch_state \<Rightarrow> ('c, 'e) fetch_state" where
  "fetch_run n f sched s = foldl (\<lambda>s ev. fetch_step n f ev s) s sched"

text \<open>
  What a call gives back and does: the chunk slice (\<open>None\<close> is the nil slice), the
  error, the outcomes received and the chunks \<open>f\<close> was called on.
\<close>

record ('c, 'e) fetch_result =
  chunks_out :: "'c list option"
  err_out :: "'e option"
  outcomes :: "('e + 'c) list"
  decode_calls :: "'c list"

text \<open>
  \<^verbatim>\<open>if ctx.Err() != nil { return nil, ctx.Err() }\<close> comes first; \<open>ctxErr\<close> is
  what \<open>ctx.Err()\<close> gives on entry. The result is \<open>None\<close> when the schedule given
  ends before the coordinator has left its loop.
\<close>

definition GetParallelChunks ::
  "'e option \<Rightarrow> int \<Rightarrow> 'c list \<Rightarrow> ('c \<Rightarrow> 'e + 'c) \<Rightarrow> event list \<Rightarrow> ('c, 'e) fetch_result option" where
  "GetParallelChunks ctxErr maxParallel chunks f sched =
     (if ctxErr \<noteq> None
      then Some \<lparr>chunks_out = None, err_out = ctxErr, outcomes = [], decode_calls = []\<rparr>
      else
        let s = fetch_run (length chunks) f sched (fetch_init maxParallel chunks)
        in if loop_i s < length chunks then None
           else Some \<lparr>chunks_out = Some (result s), err_out = f_lastErr s,
                      outcomes = observed s, decode_calls = decoded s\<rparr>)"

text \<open>Readings of the outcome log: the chunks of the successes and the errors of the failures.\<close>

definition successes :: "('e + 'c) list \<Rightarrow> 'c list" where
  "successes xs = concat (map (\<lambda>x. case x of Inl e \<Rightarrow> [] | Inr c \<Rightarrow> [c]) xs)"

definition failures :: "('e + 'c) list \<Rightarrow> 'e list" where
  "failures xs = concat (map (\<lambda>x. case x of Inl e \<Rightarrow> [e] | Inr c \<Rightarrow> []) xs)"

definition last_failure :: "('e + 'c) list \<Rightarrow> 'e option" where
  "last_failure xs = (case failures xs of [] \<Rightarrow> None | e # es \<Rightarrow> Some (last (e # es)))"

text \<open>The outcomes the workers are blocked sending, and the work a fetch has left.\<close>

definition held :: "('c, 'e) fetch_state \<Rightarrow> ('e + 'c) list" where
  "held s = concat (map (\<lambda>h. case h of None \<Rightarrow> [] | Some x \<Rightarrow> [x]) (holding s))"

definition fetch_left :: "('c, 'e) fetch_state \<Rightarrow> nat" where
  "fetch_left s = 2 * length (queuedChunks s) + length (held s)"

section \<open>Index abstraction: shard annotations (pkg/storage/tsdb/index.go)\<close>

text \<open>
  The file declares the interface \<open>Index\<close>; the implementations of \<open>GetChunkRefs\<close> and
  the type \<open>index.ShardAnnotation\<close> are in other files. The interface's comment:
  \<^verbatim>\<open>// Shard is also optional. If not nil, TSDB will limit the result to
  // the requested shard. If it is nil, TSDB will return all results,
  // regardless of shard.
  // Note: any shard used must be a valid factor of two, meaning `0_of_2` and `3_of_4`
  // are fine, but `0_of_3` is not.\<close>
\<close>

text \<open>
  Modelled from the spec: the type \<open>index.ShardAnnotation\<close>, which is not among the
  files at hand. "ShardAnnotation: a (index, count) pair where count must be a power
  of two; selects a deterministic subset of series/chunks."
\<close>

record ShardAnnotation =
  shard_index :: nat
  shard_count :: nat

function is_power_of_two :: "nat \<Rightarrow> bool" where
  "is_power_of_two n =
     (if n = 0 then False
      else if n = 1 then True
      else if odd n then False
      else is_power_of_two (n div 2))"
  by pat_completeness auto
termination
  by (relation "measure (\<lambda>n. n)") auto

declare is_power_of_two.simps [simp del]

datatype 'e index_error = ConfigurationError | BackendError 'e

text \<open>
  Modelled from the spec: an implementation of \<open>Index.GetChunkRefs\<close>, none of which is
  among the files at hand. "shard.count must be a power of two; passing a
  non-power-of-two is a caller error"; "Configuration error: invalid shard
  annotation (non-power-of-two count) - fails immediately, no partial work
  attempted"; "If shard is supplied, results are restricted to that shard; if
  omitted, all shards are returned". \<open>execute\<close> is the query against the backing
  store, which reads and updates the store's state \<open>'s\<close> and may fail.
\<close>

definition GetChunkRefs ::
  "(ShardAnnotation option \<Rightarrow> 's \<Rightarrow> ('e + ChunkRef list) \<times> 's)
    \<Rightarrow> ShardAnnotation option \<Rightarrow> 's \<Rightarrow> ('e index_error + ChunkRef list) \<times> 's" where
  "GetChunkRefs execute shard s =
     (case shard of
        None \<Rightarrow>
          (case execute None s of
             (Inl e, s') \<Rightarrow> (Inl (BackendError e), s')
           | (Inr refs, s') \<Rightarrow> (Inr refs, s'))
      | Some sh \<Rightarrow>
          if is_power_of_two (shard_count sh)
          then (case execute (Some sh) s of
                  (Inl e, s') \<Rightarrow> (Inl (BackendError e), s')
                | (Inr refs, s') \<Rightarrow> (Inr refs, s'))
          else (Inl ConfigurationError, s))"

section \<open>Properties of the chunk reference order\<close>

lemma Less_iff:
  "Less a b \<longleftrightarrow>
     sint (Start a) < sint (Start b) \<or> (Start a = Start b \<and> sint (End a) \<le> sint (End b))"
  by (auto simp: Less_def)

lemma sint_inj64: "sint (a::64 word) = sint b \<longleftrightarrow> a = b"
  by (auto intro: signed_word_eqI)

lemma Less_Start: "Less a b \<Longrightarrow> sint (Start a) \<le> sint (Start b)"
  by (auto simp: Less_def split: if_splits)

lemma Less_total: "Less a b \<or> Less b a"
proof (cases "Start a = Start b")
  case True
  then show ?thesis by (simp add: Less_def) linarith
next
  case False
  then have "sint (Start a) \<noteq> sint (Start b)" by (simp add: sint_inj64)
  with False show ?thesis by (simp add: Less_def) linarith
qed

lemma Less_trans:
  assumes "Less a b" "Less b c"
  shows "Less a c"
proof -
  from assms
  have ab: "sint (Start a) < sint (Start b) \<or> (Start a = Start b \<and> sint (End a) \<le> sint (End b))"
    and bc: "sint (Start b) < sint (Start c) \<or> (Start b = Start c \<and> sint (End b) \<le> sint (End c))"
    by (simp_all add: Less_iff)
  then have "sint (Start a) < sint (Start c) \<or> (Start a = Start c \<and> sint (End a) \<le> sint (End c))"
    by auto
  then show ?thesis by (simp add: Less_iff)
qed

lemma sorted_wrt_Less_Start:
  "sorted_wrt Less xs \<Longrightarrow> sorted_wrt (\<lambda>a b. sint (Start a) \<le> sint (Start b)) xs"
  by (erule sorted_wrt_mono_rel[rotated]) (simp add: Less_Start)

lemma Less_insert_sorted:
  "sorted_wrt Less ys \<Longrightarrow> \<exists>zs. mset zs = add_mset x (mset ys) \<and> sorted_wrt Less zs"
proof (induction ys)
  case Nil
  have "mset [x] = add_mset x (mset []) \<and> sorted_wrt Less [x]" by simp
  then show ?case by blast
next
  case (Cons y ys)
  from Cons.prems have yz: "\<forall>z\<in>set ys. Less y z" and s: "sorted_wrt Less ys" by simp_all
  show ?case
  proof (cases "Less x y")
    case True
    have "\<forall>z\<in>set ys. Less x z" using True yz Less_trans by blast
    with True Cons.prems have "mset (x # y # ys) = add_mset x (mset (y # ys))
        \<and> sorted_wrt Less (x # y # ys)" by simp
    then show ?thesis by blast
  next
    case False
    then have yx: "Less y x" using Less_total by blast
    from Cons.IH[OF s] obtain zs where m: "mset zs = add_mset x (mset ys)"
      and z: "sorted_wrt Less zs" by blast
    from m have "set zs = insert x (set ys)" by (metis mset_eq_setD set_mset_add_mset_insert set_mset_mset)
    with yx yz have "\<forall>z\<in>set zs. Less y z" by simp
    with z m have "mset (y # zs) = add_mset x (mset (y # ys)) \<and> sorted_wrt Less (y # zs)"
      by simp
    then show ?thesis by blast
  qed
qed

lemma Less_sorted_permutation: "\<exists>ys. mset ys = mset xs \<and> sorted_wrt Less ys"
proof (induction xs)
  case Nil
  have "mset [] = mset ([] :: ChunkRef list) \<and> sorted_wrt Less []" by simp
  then show ?case by blast
next
  case (Cons x xs)
  then obtain ys where "mset ys = mset xs" "sorted_wrt Less ys" by blast
  with Less_insert_sorted[of ys x] show ?case by auto
qed

text \<open>
  C6. \<open>a.Less(b)\<close> holds exactly when \<open>a.Start < b.Start\<close>, or \<open>a.Start == b.Start\<close> and
  \<open>a.End <= b.End\<close>; so \<open>r.Less(r)\<close> holds for every \<open>r\<close>. Every list has an
  arrangement in which each element is \<open>Less\<close> than all later ones (the list sorted by
  \<open>Less\<close>), and every list so arranged has its \<open>Start\<close> times in ascending order.
\<close>

theorem ChunkRef_Less_order:
  "(Less a b \<longleftrightarrow>
      sint (Start a) < sint (Start b) \<or> (Start a = Start b \<and> sint (End a) \<le> sint (End b)))
   \<and> Less r r
   \<and> (\<exists>ys. mset ys = mset zs \<and> sorted_wrt Less ys)
   \<and> (sorted_wrt Less xs \<longrightarrow> sorted_wrt (\<lambda>a b. sint (Start a) \<le> sint (Start b)) xs)"
  using Less_iff[of a b] sorted_wrt_Less_Start[of xs] Less_sorted_permutation[of zs]
  by (simp add: Less_def)

theorem ChunkRef_Less_order_witness:
  "sorted_wrt Less
     [\<lparr>User = ''u'', Fingerprint = 1, Start = 1, End = 10, Checksum = 1\<rparr>,
      \<lparr>User = ''u'', Fingerprint = 1, Start = 5, End = 7, Checksum = 2\<rparr>,
      \<lparr>User = ''u'', Fingerprint = 1, Start = 5, End = 15, Checksum = 3\<rparr>]
   \<and> sorted_wrt (\<lambda>a b. sint (Start a) \<le> sint (Start b))
     [\<lparr>User = ''u'', Fingerprint = 1, Start = 1, End = 10, Checksum = 1\<rparr>,
      \<lparr>User = ''u'', Fingerprint = 1, Start = 5, End = 7, Checksum = 2\<rparr>,
      \<lparr>User = ''u'', Fingerprint = 1, Start = 5, End = 15, Checksum = 3\<rparr>]
   \<and> Less \<lparr>User = ''u'', Fingerprint = 1, Start = 5, End = 7, Checksum = 2\<rparr>
          \<lparr>User = ''u'', Fingerprint = 1, Start = 5, End = 7, Checksum = 2\<rparr>"
proof -
  have h: "sorted_wrt Less
     [\<lparr>User = ''u'', Fingerprint = 1, Start = 1, End = 10, Checksum = 1\<rparr>,
      \<lparr>User = ''u'', Fingerprint = 1, Start = 5, End = 7, Checksum = 2\<rparr>,
      \<lparr>User = ''u'', Fingerprint = 1, Start = 5, End = 15, Checksum = 3\<rparr>]"
    by (simp add: Less_def)
  note T = ChunkRef_Less_order[where
        r = "\<lparr>User = ''u'', Fingerprint = 1, Start = 5, End = 7, Checksum = 2\<rparr>"
        and xs = "[\<lparr>User = ''u'', Fingerprint = 1, Start = 1, End = 10, Checksum = 1\<rparr>,
          \<lparr>User = ''u'', Fingerprint = 1, Start = 5, End = 7, Checksum = 2\<rparr>,
          \<lparr>User = ''u'', Fingerprint = 1, Start = 5, End = 15, Checksum = 3\<rparr>]"]
  note s = T[THEN conjunct2, THEN conjunct2, THEN conjunct2, THEN mp, OF h]
  note r = T[THEN conjunct2, THEN conjunct1]
  from h s r show ?thesis by (intro conjI)
qed

section \<open>Properties of the query grouper\<close>

lemma QueriesByTable_step_lookup:
  "fmlookup (QueriesByTable_step m q) t =
     (if t = TableName q then Some (lookup_slice m t @ [q]) else fmlookup m t)"
  by (auto simp: QueriesByTable_step_def lookup_slice_def Let_def split: option.splits)

lemma foldl_QueriesByTable_step_lookup:
  "fmlookup (foldl QueriesByTable_step m qs) t =
     (if t \<in> TableName ` set qs
      then Some (lookup_slice m t @ filter (\<lambda>q. TableName q = t) qs)
      else fmlookup m t)"
proof (induction qs arbitrary: m t)
  case Nil
  then show ?case by simp
next
  case (Cons q qs)
  show ?case
  proof (cases "t = TableName q")
    case True
    have "TableName q \<notin> TableName ` set qs
          \<Longrightarrow> filter (\<lambda>qa. TableName qa = TableName q) qs = []"
      unfolding filter_empty_conv by (force simp: image_iff)
    then show ?thesis
      unfolding True by (simp add: Cons.IH QueriesByTable_step_lookup lookup_slice_def)
  next
    case False
    then show ?thesis
      by (simp add: Cons.IH QueriesByTable_step_lookup lookup_slice_def)
  qed
qed

lemma QueriesByTable_lookup:
  "fmlookup (QueriesByTable qs) t =
     (if t \<in> TableName ` set qs then Some (filter (\<lambda>q. TableName q = t) qs) else None)"
  by (simp add: QueriesByTable_def foldl_QueriesByTable_step_lookup lookup_slice_def)

lemma QueriesByTable_dom: "fmdom' (QueriesByTable qs) = TableName ` set qs"
  by (auto simp: fmlookup_dom'_iff QueriesByTable_lookup split: if_splits)

lemma QueriesByTable_slice:
  "lookup_slice (QueriesByTable qs) t = filter (\<lambda>q. TableName q = t) qs"
proof (cases "t \<in> TableName ` set qs")
  case True
  then show ?thesis by (simp add: lookup_slice_def QueriesByTable_lookup)
next
  case False
  then have "filter (\<lambda>q. TableName q = t) qs = []"
    unfolding filter_empty_conv by (force simp: image_iff)
  with False show ?thesis by (simp add: lookup_slice_def QueriesByTable_lookup)
qed

lemma mset_partition_by_key:
  "(\<Sum>t\<in>f ` set qs. mset (filter (\<lambda>q. f q = t) qs)) = mset qs"
proof (induction qs)
  case Nil
  then show ?case by simp
next
  case (Cons q qs)
  have fin: "finite (f ` set qs)" by simp
  show ?case
  proof (cases "f q \<in> f ` set qs")
    case True
    then have eq: "f ` set (q # qs) = f ` set qs" by auto
    have "(\<Sum>t\<in>f ` set qs. mset (filter (\<lambda>q. f q = t) (q # qs)))
        = (\<Sum>t\<in>f ` set qs. (if t = f q then {#q#} else {#}) + mset (filter (\<lambda>q. f q = t) qs))"
      by (intro sum.cong) auto
    also have "\<dots> = {#q#} + (\<Sum>t\<in>f ` set qs. mset (filter (\<lambda>q. f q = t) qs))"
      using True by (simp add: sum.distrib sum.delta' fin)
    finally show ?thesis using Cons.IH eq by simp
  next
    case False
    then have "(\<Sum>t\<in>f ` set qs. mset (filter (\<lambda>q. f q = t) (q # qs)))
        = (\<Sum>t\<in>f ` set qs. mset (filter (\<lambda>q. f q = t) qs))"
      by (intro sum.cong) auto
    moreover have "filter (\<lambda>x. f x = f q) qs = []"
      unfolding filter_empty_conv using False by (force simp: image_iff)
    ultimately show ?thesis using False Cons.IH by (simp add: fin)
  qed
qed

text \<open>
  C5. \<open>QueriesByTable\<close> partitions its input by table name: the empty input gives the
  empty map; the multiset union of the grouped lists is the input multiset; the map
  has a key exactly for each table name of the input, and the list under it is the
  input's queries for that table in input order; and the lists of two different
  tables have no query in common.
\<close>

theorem QueriesByTable_partition:
  "QueriesByTable ([] :: 'a IndexQuery_scheme list) = fmempty
   \<and> (\<Sum>t \<in> fmdom' (QueriesByTable queries). mset (lookup_slice (QueriesByTable queries) t))
       = mset (queries :: 'a IndexQuery_scheme list)
   \<and> (\<forall>t. fmlookup (QueriesByTable queries) t =
            (if t \<in> TableName ` set queries
             then Some (filter (\<lambda>q. TableName q = t) queries) else None))
   \<and> (\<forall>t t'. t \<noteq> t' \<longrightarrow>
         set (lookup_slice (QueriesByTable queries) t)
           \<inter> set (lookup_slice (QueriesByTable queries) t') = {})"
proof -
  have e: "QueriesByTable ([] :: 'a IndexQuery_scheme list) = fmempty"
    by (simp add: QueriesByTable_def)
  have u: "(\<Sum>t \<in> fmdom' (QueriesByTable queries). mset (lookup_slice (QueriesByTable queries) t))
       = mset queries"
    unfolding QueriesByTable_dom QueriesByTable_slice by (rule mset_partition_by_key)
  have d: "t \<noteq> t' \<Longrightarrow> set (lookup_slice (QueriesByTable queries) t)
           \<inter> set (lookup_slice (QueriesByTable queries) t') = {}" for t t'
    by (auto simp: QueriesByTable_slice)
  show ?thesis using e u d by (simp add: QueriesByTable_lookup)
qed

theorem QueriesByTable_partition_witness:
  "''a'' \<noteq> ''b''
   \<and> set (lookup_slice (QueriesByTable
        [\<lparr>TableName = ''a'', HashValue = ''x''\<rparr>, \<lparr>TableName = ''b'', HashValue = ''x''\<rparr>,
         \<lparr>TableName = ''a'', HashValue = ''y''\<rparr>]) ''a'')
     \<inter> set (lookup_slice (QueriesByTable
        [\<lparr>TableName = ''a'', HashValue = ''x''\<rparr>, \<lparr>TableName = ''b'', HashValue = ''x''\<rparr>,
         \<lparr>TableName = ''a'', HashValue = ''y''\<rparr>]) ''b'') = {}
   \<and> fmlookup (QueriesByTable
        [\<lparr>TableName = ''a'', HashValue = ''x''\<rparr>, \<lparr>TableName = ''b'', HashValue = ''x''\<rparr>,
         \<lparr>TableName = ''a'', HashValue = ''y''\<rparr>]) ''a''
      = Some [\<lparr>TableName = ''a'', HashValue = ''x''\<rparr>, \<lparr>TableName = ''a'', HashValue = ''y''\<rparr>]"
proof -
  have n: "''a'' \<noteq> ''b''" by simp
  have l: "fmlookup (QueriesByTable
        [\<lparr>TableName = ''a'', HashValue = ''x''\<rparr>, \<lparr>TableName = ''b'', HashValue = ''x''\<rparr>,
         \<lparr>TableName = ''a'', HashValue = ''y''\<rparr>]) ''a''
      = Some [\<lparr>TableName = ''a'', HashValue = ''x''\<rparr>, \<lparr>TableName = ''a'', HashValue = ''y''\<rparr>]"
    by (simp add: QueriesByTable_def QueriesByTable_step_def lookup_slice_def)
  have d: "set (lookup_slice (QueriesByTable
        [\<lparr>TableName = ''a'', HashValue = ''x''\<rparr>, \<lparr>TableName = ''b'', HashValue = ''x''\<rparr>,
         \<lparr>TableName = ''a'', HashValue = ''y''\<rparr>]) ''a'')
     \<inter> set (lookup_slice (QueriesByTable
        [\<lparr>TableName = ''a'', HashValue = ''x''\<rparr>, \<lparr>TableName = ''b'', HashValue = ''x''\<rparr>,
         \<lparr>TableName = ''a'', HashValue = ''y''\<rparr>]) ''b'') = {}"
    by (rule QueriesByTable_partition[THEN conjunct2, THEN conjunct2, THEN conjunct2,
          THEN spec, THEN spec, THEN mp, OF n])
  show ?thesis
    using n l d by (intro conjI)
qed

section \<open>Properties of the dedup layer and of the fan-out\<close>

subsection \<open>The two critical sections of isSeen\<close>

lemma isSeen_Locked_fst: "fst (isSeen_Locked i h r) = seenRange i h r"
  by (simp add: isSeen_Locked_def Let_def)

lemma isSeen_eq_Locked: "isSeen i h r = isSeen_Locked i h r"
  by (simp add: isSeen_def isSeen_RLocked_def isSeen_Locked_def)

lemma seenRange_Locked:
  "seenRange (snd (isSeen_Locked i h r)) h' r' \<longleftrightarrow> seenRange i h' r' \<or> (h' = h \<and> r' = r)"
  by (auto simp: isSeen_Locked_def seenRange_def Let_def split: option.splits)

lemma numEntriesSent_Locked:
  "numEntriesSent (snd (isSeen_Locked i h r)) = numEntriesSent i + (if seenRange i h r then 0 else 1)"
  by (simp add: isSeen_Locked_def Let_def)

subsection \<open>Steps of interleaved workers\<close>

lemma worker_step_cases [case_names idle send skip miss lock]:
  assumes idle: "worker_step n w s = s \<Longrightarrow> P s"
    and send: "\<And>wk. \<lbrakk>w < length (workers s); wk = workers s ! w; \<not> reported wk; todo wk = [];
                 recv_i s < n\<rbrakk>
        \<Longrightarrow> P (s\<lparr>workers := (workers s)[w := wk\<lparr>reported := True\<rparr>],
                 recv_i := recv_i s + maxQueriesPerGoroutine,
                 q_lastErr := (if outcome wk \<noteq> None then outcome wk else q_lastErr s),
                 received := received s @ [outcome wk],
                 senders := senders s @ [w]\<rparr>)"
    and skip: "\<And>wk q e rest. \<lbrakk>w < length (workers s); wk = workers s ! w; \<not> reported wk;
                 todo wk = (q, e) # rest; \<not> locking wk; seenRange (deduper s) (HashValue q) (fst e)\<rbrakk>
        \<Longrightarrow> P (s\<lparr>workers := (workers s)[w := wk\<lparr>todo := rest\<rparr>]\<rparr>)"
    and miss: "\<And>wk q e rest. \<lbrakk>w < length (workers s); wk = workers s ! w; \<not> reported wk;
                 todo wk = (q, e) # rest; \<not> locking wk; \<not> seenRange (deduper s) (HashValue q) (fst e)\<rbrakk>
        \<Longrightarrow> P (s\<lparr>workers := (workers s)[w := wk\<lparr>locking := True\<rparr>]\<rparr>)"
    and lock: "\<And>wk q e rest. \<lbrakk>w < length (workers s); wk = workers s ! w; \<not> reported wk;
                 todo wk = (q, e) # rest; locking wk\<rbrakk>
        \<Longrightarrow> P (s\<lparr>deduper := snd (isSeen_Locked (deduper s) (HashValue q) (fst e)),
                 workers := (workers s)[w := wk\<lparr>todo := rest, locking := False\<rparr>],
                 delivered := (if seenRange (deduper s) (HashValue q) (fst e) then delivered s
                               else delivered s @ [(q, e)])\<rparr>)"
  shows "P (worker_step n w s)"
proof (cases "length (workers s) \<le> w \<or> reported (workers s ! w)")
  case True
  then have "worker_step n w s = s" by (auto simp: worker_step_def Let_def)
  with idle show ?thesis by simp
next
  case False
  then have w: "w < length (workers s)" and nr: "\<not> reported (workers s ! w)" by auto
  show ?thesis
  proof (cases "todo (workers s ! w)")
    case Nil
    show ?thesis
    proof (cases "recv_i s < n")
      case True
      have "worker_step n w s = s\<lparr>workers := (workers s)[w := (workers s ! w)\<lparr>reported := True\<rparr>],
                 recv_i := recv_i s + maxQueriesPerGoroutine,
                 q_lastErr := (if outcome (workers s ! w) \<noteq> None then outcome (workers s ! w) else q_lastErr s),
                 received := received s @ [outcome (workers s ! w)],
                 senders := senders s @ [w]\<rparr>"
        using w nr Nil True by (simp add: worker_step_def Let_def)
      with send[OF w refl nr Nil True] show ?thesis by simp
    next
      case False
      then have "worker_step n w s = s" using w nr Nil by (simp add: worker_step_def Let_def)
      with idle show ?thesis by simp
    qed
  next
    case (Cons qe rest)
    obtain q e where qe: "qe = (q, e)" by (cases qe)
    note td = Cons[unfolded qe]
    show ?thesis
    proof (cases "locking (workers s ! w)")
      case True
      have "worker_step n w s = s\<lparr>deduper := snd (isSeen_Locked (deduper s) (HashValue q) (fst e)),
                 workers := (workers s)[w := (workers s ! w)\<lparr>todo := rest, locking := False\<rparr>],
                 delivered := (if seenRange (deduper s) (HashValue q) (fst e) then delivered s
                               else delivered s @ [(q, e)])\<rparr>"
        using w nr td True isSeen_Locked_fst[of "deduper s" "HashValue q" "fst e"]
        by (cases "isSeen_Locked (deduper s) (HashValue q) (fst e)")
           (simp add: worker_step_def Let_def)
      with lock[OF w refl nr td True] show ?thesis by simp
    next
      case False
      show ?thesis
      proof (cases "seenRange (deduper s) (HashValue q) (fst e)")
        case True
        have "worker_step n w s = s\<lparr>workers := (workers s)[w := (workers s ! w)\<lparr>todo := rest\<rparr>]\<rparr>"
          using w nr td False True by (simp add: worker_step_def Let_def isSeen_RLocked_def)
        with skip[OF w refl nr td False True] show ?thesis by simp
      next
        case F2: False
        have "worker_step n w s = s\<lparr>workers := (workers s)[w := (workers s ! w)\<lparr>locking := True\<rparr>]\<rparr>"
          using w nr td False F2 by (simp add: worker_step_def Let_def isSeen_RLocked_def)
        with miss[OF w refl nr td False F2] show ?thesis by simp
      qed
    qed
  qed
qed

lemma exec_run_Nil [simp]: "exec_run n [] s = s"
  by (simp add: exec_run_def)

lemma exec_run_Cons [simp]: "exec_run n (w # sched) s = exec_run n sched (worker_step n w s)"
  by (simp add: exec_run_def)

lemma exec_run_append: "exec_run n (s1 @ s2) s = exec_run n s2 (exec_run n s1 s)"
  by (simp add: exec_run_def)

lemma exec_run_invariant:
  assumes "P s" and "\<And>s w. P s \<Longrightarrow> P (worker_step n w s)"
  shows "P (exec_run n sched s)"
  using assms(1) by (induction sched arbitrary: s) (auto intro: assms(2))

lemma pairOf_pair: "pairOf (q, e) = (HashValue q, fst e)"
  by (simp add: pairOf_def)

lemma worker_step_dedup:
  assumes "distinct (map pairOf (delivered s))"
    and "set (map pairOf (delivered s)) = {(h, r). seenRange (deduper s) h r}"
  shows "distinct (map pairOf (delivered (worker_step n w s)))
       \<and> set (map pairOf (delivered (worker_step n w s)))
           = {(h, r). seenRange (deduper (worker_step n w s)) h r}"
proof (rule worker_step_cases[of n w s], goal_cases)
  case 1
  with assms show ?case by simp
next
  case (2 wk)
  with assms show ?case by simp
next
  case (3 wk q e rest)
  with assms show ?case by simp
next
  case (4 wk q e rest)
  with assms show ?case by simp
next
  case (5 wk q e rest)
  show ?case
  proof (cases "seenRange (deduper s) (HashValue q) (fst e)")
    case True
    then have "\<And>h r. seenRange (snd (isSeen_Locked (deduper s) (HashValue q) (fst e))) h r
                  = seenRange (deduper s) h r"
      by (auto simp: seenRange_Locked)
    with True assms show ?thesis by simp
  next
    case False
    then have "(HashValue q, fst e) \<notin> set (map pairOf (delivered s))"
      using assms(2) by simp
    moreover have "{(h, r). seenRange (snd (isSeen_Locked (deduper s) (HashValue q) (fst e))) h r}
        = insert (HashValue q, fst e) {(h, r). seenRange (deduper s) h r}"
      by (auto simp: seenRange_Locked)
    ultimately show ?thesis using False assms by (simp add: pairOf_pair)
  qed
qed

lemma exec_run_dedup:
  "distinct (map pairOf (delivered (exec_run n sched (exec_init NewIndexDeduper ws))))
   \<and> set (map pairOf (delivered (exec_run n sched (exec_init NewIndexDeduper ws))))
       = {(h, r). seenRange (deduper (exec_run n sched (exec_init NewIndexDeduper ws))) h r}"
proof (rule exec_run_invariant[where P = "\<lambda>s. distinct (map pairOf (delivered s))
       \<and> set (map pairOf (delivered s)) = {(h, r). seenRange (deduper s) h r}"])
  show "distinct (map pairOf (delivered (exec_init NewIndexDeduper ws))) \<and>
    set (map pairOf (delivered (exec_init NewIndexDeduper ws))) =
    {(h, r). seenRange (deduper (exec_init NewIndexDeduper ws)) h r}"
    by (simp add: exec_init_def NewIndexDeduper_def seenRange_def)
next
  fix s :: "('a, 'b) exec_state" and w
  assume "distinct (map pairOf (delivered s)) \<and>
           set (map pairOf (delivered s)) = {(h, r). seenRange (deduper s) h r}"
  then show "distinct (map pairOf (delivered (worker_step n w s))) \<and>
           set (map pairOf (delivered (worker_step n w s))) =
           {(h, r). seenRange (deduper (worker_step n w s)) h r}"
    using worker_step_dedup by blast
qed

subsection \<open>The filtering iterator read by one goroutine\<close>

lemma filteringBatchIter_Next_Nil:
  "remaining (fi_ReadBatchIterator it) = []
   \<Longrightarrow> filteringBatchIter_Next it i
       = (False, it\<lparr>fi_ReadBatchIterator := \<lparr>remaining = [], current = None\<rparr>\<rparr>, i)"
  by (subst filteringBatchIter_Next.simps) (simp add: ReadBatchIterator_Next_def)

lemma filteringBatchIter_Next_Cons:
  assumes "remaining (fi_ReadBatchIterator it) = e # es"
  shows "filteringBatchIter_Next it i
       = (if seenRange i (HashValue (fi_query it)) (fst e)
          then filteringBatchIter_Next (it\<lparr>fi_ReadBatchIterator := \<lparr>remaining = es, current = Some e\<rparr>\<rparr>) i
          else (True, it\<lparr>fi_ReadBatchIterator := \<lparr>remaining = es, current = Some e\<rparr>\<rparr>,
                snd (isSeen_Locked i (HashValue (fi_query it)) (fst e))))"
proof (cases "seenRange i (HashValue (fi_query it)) (fst e)")
  case True
  then have "isSeen_Locked i (HashValue (fi_query it)) (fst e) = (True, i)"
    by (simp add: isSeen_Locked_def)
  with True assms show ?thesis
    by (subst filteringBatchIter_Next.simps)
       (simp add: ReadBatchIterator_Next_def isSeen_eq_Locked RangeValue_def)
next
  case False
  then have "fst (isSeen_Locked i (HashValue (fi_query it)) (fst e)) = False"
    by (simp add: isSeen_Locked_fst)
  then obtain i2 where "isSeen_Locked i (HashValue (fi_query it)) (fst e) = (False, i2)"
    by (cases "isSeen_Locked i (HashValue (fi_query it)) (fst e)") auto
  with False assms show ?thesis
    by (subst filteringBatchIter_Next.simps)
       (simp add: ReadBatchIterator_Next_def isSeen_eq_Locked RangeValue_def)
qed

lemma consume_all_Nil:
  "remaining (fi_ReadBatchIterator it) = []
   \<Longrightarrow> consume_all it i = ([], it\<lparr>fi_ReadBatchIterator := \<lparr>remaining = [], current = None\<rparr>\<rparr>, i)"
  by (subst consume_all.simps) (simp add: filteringBatchIter_Next_Nil)

lemma consume_all_Cons:
  assumes "remaining (fi_ReadBatchIterator it) = e # es"
  shows "consume_all it i
       = (if seenRange i (HashValue (fi_query it)) (fst e)
          then consume_all (it\<lparr>fi_ReadBatchIterator := \<lparr>remaining = es, current = Some e\<rparr>\<rparr>) i
          else (case consume_all (it\<lparr>fi_ReadBatchIterator := \<lparr>remaining = es, current = Some e\<rparr>\<rparr>)
                       (snd (isSeen_Locked i (HashValue (fi_query it)) (fst e))) of
                  (out, r) \<Rightarrow> (e # out, r)))"
proof (cases "seenRange i (HashValue (fi_query it)) (fst e)")
  case True
  let ?it2 = "it\<lparr>fi_ReadBatchIterator := \<lparr>remaining = es, current = Some e\<rparr>\<rparr>"
  have n: "filteringBatchIter_Next it i = filteringBatchIter_Next ?it2 i"
    using assms True by (simp add: filteringBatchIter_Next_Cons)
  have "consume_all it i = consume_all ?it2 i"
    by (subst consume_all.simps, subst (2) consume_all.simps) (simp only: n)
  with True show ?thesis by simp
next
  case False
  then show ?thesis
    using assms
    by (subst consume_all.simps)
       (simp add: filteringBatchIter_Next_Cons RangeValue_def Value_def)
qed

lemma consume_all_spec:
  "remaining (fi_ReadBatchIterator it) = es \<Longrightarrow> consume_all it i = (out, it', i')
   \<Longrightarrow> {(h, r). seenRange i' h r}
         = {(h, r). seenRange i h r} \<union> (\<lambda>e. (HashValue (fi_query it), fst e)) ` set es
     \<and> (\<lambda>e. (HashValue (fi_query it), fst e)) ` set out
         = (\<lambda>e. (HashValue (fi_query it), fst e)) ` set es - {(h, r). seenRange i h r}
     \<and> distinct (map fst out)
     \<and> numEntriesSent i' = numEntriesSent i + int (length out)"
proof (induction es arbitrary: it i out it' i')
  case Nil
  then show ?case by (auto simp: consume_all_Nil)
next
  case (Cons e es)
  let ?h = "HashValue (fi_query it)"
  let ?it2 = "it\<lparr>fi_ReadBatchIterator := \<lparr>remaining = es, current = Some e\<rparr>\<rparr>"
  have r2: "remaining (fi_ReadBatchIterator ?it2) = es" by simp
  have h2: "HashValue (fi_query ?it2) = ?h" by simp
  show ?case
  proof (cases "seenRange i ?h (fst e)")
    case True
    with Cons.prems have c: "consume_all ?it2 i = (out, it', i')"
      by (simp add: consume_all_Cons)
    from Cons.IH[OF r2 c] True show ?thesis unfolding h2 by auto
  next
    case False
    let ?i2 = "snd (isSeen_Locked i ?h (fst e))"
    obtain out2 where c: "consume_all ?it2 ?i2 = (out2, it', i')" and o: "out = e # out2"
      using Cons.prems False by (auto simp: consume_all_Cons split: prod.splits)
    have s2: "{(h, r). seenRange ?i2 h r} = insert (?h, fst e) {(h, r). seenRange i h r}"
      by (auto simp: seenRange_Locked)
    from Cons.IH[OF r2 c] have
      a: "{(h, r). seenRange i' h r} = {(h, r). seenRange ?i2 h r} \<union> (\<lambda>e. (?h, fst e)) ` set es"
      and b: "(\<lambda>e. (?h, fst e)) ` set out2 = (\<lambda>e. (?h, fst e)) ` set es - {(h, r). seenRange ?i2 h r}"
      and d: "distinct (map fst out2)"
      and n: "numEntriesSent i' = numEntriesSent ?i2 + int (length out2)"
      unfolding h2 by auto
    have nin: "fst e \<notin> fst ` set out2"
    proof
      assume "fst e \<in> fst ` set out2"
      then have "(?h, fst e) \<in> (\<lambda>e. (?h, fst e)) ` set out2" by auto
      with b s2 show False by auto
    qed
    have 1: "{(h, r). seenRange i' h r}
         = {(h, r). seenRange i h r} \<union> (\<lambda>e. (?h, fst e)) ` set (e # es)"
      using a s2 by auto
    have 2: "(\<lambda>e. (?h, fst e)) ` set out
         = (\<lambda>e. (?h, fst e)) ` set (e # es) - {(h, r). seenRange i h r}"
      using b s2 o False by auto
    have 3: "distinct (map fst out)" using d nin o by simp
    have 4: "numEntriesSent i' = numEntriesSent i + int (length out)"
      using n o False by (simp add: numEntriesSent_Locked)
    from 1 2 3 4 show ?thesis by blast
  qed
qed

lemma pairOf_image_Pair: "pairOf ` Pair q ` A = (\<lambda>e. (HashValue q, fst e)) ` A"
  by (force simp: pairOf_def image_iff)

lemma record_all_callback_spec:
  assumes "record_all_callback q \<lparr>fb_query = q, fb_ReadBatch = b\<rparr> (i, got) = (r, i', got')"
    and "distinct (map pairOf got)"
    and "set (map pairOf got) = {(h, r). seenRange i h r}"
  shows "distinct (map pairOf got')
       \<and> set (map pairOf got') = {(h, r). seenRange i' h r}
       \<and> {(h, r). seenRange i' h r} = {(h, r). seenRange i h r} \<union> pairOf ` Pair q ` set b
       \<and> numEntriesSent i' - numEntriesSent i = int (length got') - int (length got)
       \<and> r"
proof -
  let ?it = "filteringBatch_Iterator \<lparr>fb_query = q, fb_ReadBatch = b\<rparr>"
  obtain out it' where c: "consume_all ?it i = (out, it', i')"
    and g: "got' = got @ map (Pair q) out" and r: "r"
    using assms(1) by (auto simp: record_all_callback_def split: prod.splits)
  have rem: "remaining (fi_ReadBatchIterator ?it) = b"
    and hq: "HashValue (fi_query ?it) = HashValue q"
    by (simp_all add: filteringBatch_Iterator_def ReadBatch_Iterator_def)
  from consume_all_spec[OF rem c] have
    a: "{(h, r). seenRange i' h r} = {(h, r). seenRange i h r} \<union> (\<lambda>e. (HashValue q, fst e)) ` set b"
    and b: "(\<lambda>e. (HashValue q, fst e)) ` set out
          = (\<lambda>e. (HashValue q, fst e)) ` set b - {(h, r). seenRange i h r}"
    and d: "distinct (map fst out)"
    and n: "numEntriesSent i' = numEntriesSent i + int (length out)"
    unfolding hq by auto
  let ?ps = "map (\<lambda>e. (HashValue q, fst e)) out"
  have gp: "map pairOf got' = map pairOf got @ ?ps"
    unfolding g by (simp add: pairOf_def comp_def)
  have so: "set ?ps = (\<lambda>e. (HashValue q, fst e)) ` set b - {(h, r). seenRange i h r}"
    using b by simp
  have d2: "distinct ?ps"
    using d by (simp add: distinct_map inj_on_def)
  have disj: "set (map pairOf got) \<inter> set ?ps = {}"
    unfolding so assms(3) by blast
  have 1: "distinct (map pairOf got')"
    unfolding gp using assms(2) d2 disj by (simp only: distinct_append)
  have 2: "set (map pairOf got') = {(h, r). seenRange i' h r}"
    unfolding gp set_append so assms(3) a by blast
  show ?thesis using 1 2 a n r g by (simp add: pairOf_image_Pair)
qed


lemma page_entries_Nil [simp]: "page_entries [] = []"
  by (simp add: page_entries_def)

lemma page_entries_Cons [simp]: "page_entries ((q, b) # pages) = map (Pair q) b @ page_entries pages"
  by (simp add: page_entries_def)

lemma MultiQueries_pages_spec:
  assumes "MultiQueries_pages pages (Callback record_all_callback) (i, got) = (i', got')"
    and "distinct (map pairOf got)"
    and "set (map pairOf got) = {(h, r). seenRange i h r}"
  shows "distinct (map pairOf got')
       \<and> set (map pairOf got') = {(h, r). seenRange i' h r}
       \<and> {(h, r). seenRange i' h r} = {(h, r). seenRange i h r} \<union> pairOf ` set (page_entries pages)
       \<and> numEntriesSent i' - numEntriesSent i = int (length got') - int (length got)"
  using assms
proof (induction pages arbitrary: i got)
  case Nil
  then show ?case by (simp add: MultiQueries_pages_def)
next
  case (Cons p pages)
  obtain q b where p: "p = (q, b)" by (cases p)
  obtain r i1 got1 where
    c: "record_all_callback q \<lparr>fb_query = q, fb_ReadBatch = b\<rparr> (i, got) = (r, i1, got1)"
    by (metis prod_cases3)
  from Cons.prems(1) have rest: "MultiQueries_pages pages (Callback record_all_callback) (i1, got1) = (i', got')"
    by (simp add: MultiQueries_pages_def p Callback_def c)
  note s1 = record_all_callback_spec[OF c Cons.prems(2) Cons.prems(3)]
  from s1 have d1: "distinct (map pairOf got1)"
    and e1: "set (map pairOf got1) = {(h, r). seenRange i1 h r}"
    and u1: "{(h, r). seenRange i1 h r} = {(h, r). seenRange i h r} \<union> pairOf ` Pair q ` set b"
    and n1: "numEntriesSent i1 - numEntriesSent i = int (length got1) - int (length got)"
    by blast+
  note s2 = Cons.IH[OF rest d1 e1]
  from s2 have d2: "distinct (map pairOf got')"
    and e2: "set (map pairOf got') = {(h, r). seenRange i' h r}"
    and u2: "{(h, r). seenRange i' h r} = {(h, r). seenRange i1 h r} \<union> pairOf ` set (page_entries pages)"
    and n2: "numEntriesSent i' - numEntriesSent i1 = int (length got') - int (length got1)"
    by blast+
  have u: "{(h, r). seenRange i' h r} = {(h, r). seenRange i h r} \<union> pairOf ` set (page_entries (p # pages))"
    unfolding u2 u1 p by (simp add: image_Un Un_assoc)
  have n: "numEntriesSent i' - numEntriesSent i = int (length got') - int (length got)"
    using n1 n2 by linarith
  from d2 e2 u n show ?case by blast
qed

subsection \<open>Pairs still to be filtered\<close>

lemma UN_nth_update:
  assumes "w < length ws"
  shows "(\<Union>k<length (ws[w := x]). f ((ws[w := x]) ! k)) = f x \<union> (\<Union>k\<in>{..<length ws} - {w}. f (ws ! k))"
proof (rule set_eqI)
  fix y
  show "y \<in> (\<Union>k<length (ws[w := x]). f ((ws[w := x]) ! k))
        \<longleftrightarrow> y \<in> f x \<union> (\<Union>k\<in>{..<length ws} - {w}. f (ws ! k))"
  proof
    assume "y \<in> (\<Union>k<length (ws[w := x]). f ((ws[w := x]) ! k))"
    then obtain k where k: "k < length ws" "y \<in> f ((ws[w := x]) ! k)" by auto
    show "y \<in> f x \<union> (\<Union>k\<in>{..<length ws} - {w}. f (ws ! k))"
    proof (cases "k = w")
      case True
      with k assms show ?thesis by simp
    next
      case False
      with k have "y \<in> f (ws ! k)" by simp
      with k False show ?thesis by auto
    qed
  next
    assume "y \<in> f x \<union> (\<Union>k\<in>{..<length ws} - {w}. f (ws ! k))"
    then consider "y \<in> f x" | k where "k < length ws" "k \<noteq> w" "y \<in> f (ws ! k)" by auto
    then show "y \<in> (\<Union>k<length (ws[w := x]). f ((ws[w := x]) ! k))"
    proof cases
      case 1
      then have "y \<in> f ((ws[w := x]) ! w)" using assms by simp
      with assms show ?thesis by (intro UN_I[of w]) simp_all
    next
      case 2
      then have "y \<in> f ((ws[w := x]) ! k)" by simp
      with 2 show ?thesis by (intro UN_I[of k]) simp_all
    qed
  qed
qed

lemma UN_nth_split:
  assumes "w < length ws"
  shows "(\<Union>k<length ws. f (ws ! k)) = f (ws ! w) \<union> (\<Union>k\<in>{..<length ws} - {w}. f (ws ! k))"
  using UN_nth_update[OF assms, where x = "ws ! w" and f = f] by simp

lemma set_shift_seen:
  "U' \<union> {p} = U \<Longrightarrow> p \<in> A \<Longrightarrow> A \<union> U = T \<Longrightarrow> A \<union> U' = T"
  by blast

lemma set_shift_insert:
  "U' \<union> {p} = U \<Longrightarrow> A' = insert p A \<Longrightarrow> A \<union> U = T \<Longrightarrow> A' \<union> U' = T"
  by blast

lemma worker_step_pending:
  assumes "{(h, r). seenRange (deduper s) h r}
             \<union> (\<Union>k<length (workers s). pairOf ` set (todo (workers s ! k))) = T"
  shows "{(h, r). seenRange (deduper (worker_step n w s)) h r}
             \<union> (\<Union>k<length (workers (worker_step n w s)).
                   pairOf ` set (todo (workers (worker_step n w s) ! k))) = T"
proof (rule worker_step_cases[of n w s], goal_cases)
  case 1
  with assms show ?case by simp
next
  case (2 wk)
  let ?f = "\<lambda>wk :: ('a, 'b) worker. pairOf ` set (todo wk)"
  have "(\<Union>k<length ((workers s)[w := wk\<lparr>reported := True\<rparr>]). ?f (((workers s)[w := wk\<lparr>reported := True\<rparr>]) ! k))
      = (\<Union>k<length (workers s). ?f (workers s ! k))"
    unfolding UN_nth_update[OF 2(1), where f = ?f] UN_nth_split[OF 2(1), where f = ?f] using 2 by simp
  with assms show ?case by simp
next
  case (3 wk q e rest)
  then have td: "todo (workers s ! w) = (q, e) # rest" by simp
  let ?f = "\<lambda>wk :: ('a, 'b) worker. pairOf ` set (todo wk)"
  let ?U' = "(\<Union>k<length (workers s). ?f (((workers s)[w := wk\<lparr>todo := rest\<rparr>]) ! k))"
  let ?U = "(\<Union>k<length (workers s). ?f (workers s ! k))"
  let ?A = "{(h, r). seenRange (deduper s) h r}"
  have "(\<Union>k<length ((workers s)[w := wk\<lparr>todo := rest\<rparr>]). ?f (((workers s)[w := wk\<lparr>todo := rest\<rparr>]) ! k))
      \<union> {(HashValue q, fst e)} = ?U"
    unfolding UN_nth_update[OF 3(1), where f = ?f] UN_nth_split[OF 3(1), where f = ?f]
    using td by (simp add: pairOf_pair Un_commute insert_commute)
  then have u: "?U' \<union> {(HashValue q, fst e)} = ?U" by simp
  have p: "(HashValue q, fst e) \<in> ?A"
    using 3 by simp
  have "?A \<union> ?U' = T"
    by (rule set_shift_seen[OF u p assms])
  then show ?case by simp
next
  case (4 wk q e rest)
  let ?f = "\<lambda>wk :: ('a, 'b) worker. pairOf ` set (todo wk)"
  have "(\<Union>k<length ((workers s)[w := wk\<lparr>locking := True\<rparr>]). ?f (((workers s)[w := wk\<lparr>locking := True\<rparr>]) ! k))
      = (\<Union>k<length (workers s). ?f (workers s ! k))"
    unfolding UN_nth_update[OF 4(1), where f = ?f] UN_nth_split[OF 4(1), where f = ?f] using 4 by simp
  with assms show ?case by simp
next
  case (5 wk q e rest)
  then have td: "todo (workers s ! w) = (q, e) # rest" by simp
  let ?f = "\<lambda>wk :: ('a, 'b) worker. pairOf ` set (todo wk)"
  let ?U' = "(\<Union>k<length (workers s). ?f (((workers s)[w := wk\<lparr>todo := rest, locking := False\<rparr>]) ! k))"
  let ?U = "(\<Union>k<length (workers s). ?f (workers s ! k))"
  let ?A = "{(h, r). seenRange (deduper s) h r}"
  let ?A' = "{(h, r). seenRange (snd (isSeen_Locked (deduper s) (HashValue q) (fst e))) h r}"
  have "(\<Union>k<length ((workers s)[w := wk\<lparr>todo := rest, locking := False\<rparr>]).
            ?f (((workers s)[w := wk\<lparr>todo := rest, locking := False\<rparr>]) ! k))
      \<union> {(HashValue q, fst e)} = ?U"
    unfolding UN_nth_update[OF 5(1), where f = ?f] UN_nth_split[OF 5(1), where f = ?f]
    using td by (simp add: pairOf_pair Un_commute insert_commute)
  then have u: "?U' \<union> {(HashValue q, fst e)} = ?U" by simp
  have a: "?A' = insert (HashValue q, fst e) ?A"
    by (auto simp: seenRange_Locked)
  have "?A' \<union> ?U' = T"
    by (rule set_shift_insert[OF u a assms])
  then show ?case by simp
qed

subsection \<open>The receive loop\<close>

lemma last_error_snoc:
  "last_error (errs @ [err]) = (if err \<noteq> None then err else last_error errs)"
  by (simp add: last_error_def)

lemma last_error_None_iff: "last_error errs = None \<longleftrightarrow> (\<forall>e\<in>set errs. e = None)"
  by (induction errs rule: rev_induct) (auto simp: last_error_snoc last_error_def)

lemma last_error_in_set: "last_error errs = Some e \<Longrightarrow> Some e \<in> set errs"
  by (induction errs rule: rev_induct) (auto simp: last_error_snoc last_error_def split: if_splits)

lemma mset_reported_update:
  assumes "w < length ws" "\<not> reported (ws ! w)"
  shows "mset (map outcome (filter reported (ws[w := (ws ! w)\<lparr>reported := True\<rparr>])))
       = add_mset (outcome (ws ! w)) (mset (map outcome (filter reported ws)))"
proof -
  let ?wk' = "(ws ! w)\<lparr>reported := True\<rparr>"
  have "mset (ws[w := ?wk']) = add_mset ?wk' (mset ws - {#ws ! w#})"
    using assms(1) by (simp add: mset_update)
  then have "filter_mset reported (mset (ws[w := ?wk']))
      = add_mset ?wk' (filter_mset reported (mset ws - {#ws ! w#}))"
    by simp
  also have "filter_mset reported (mset ws - {#ws ! w#}) = filter_mset reported (mset ws)"
    using assms(2) by (simp add: filter_diff_mset)
  finally have "image_mset outcome (filter_mset reported (mset (ws[w := ?wk'])))
      = add_mset (outcome (ws ! w)) (image_mset outcome (filter_mset reported (mset ws)))"
    by simp
  then show ?thesis by (simp only: mset_map mset_filter)
qed

lemma mset_reported_same:
  assumes "w < length ws" "reported wk' = reported (ws ! w)" "outcome wk' = outcome (ws ! w)"
  shows "mset (map outcome (filter reported (ws[w := wk'])))
       = mset (map outcome (filter reported ws))"
proof -
  have e: "map (\<lambda>wk. (reported wk, outcome wk)) (ws[w := wk']) = map (\<lambda>wk. (reported wk, outcome wk)) ws"
    using assms by (simp add: map_update list_update_same_conv)
  have f: "map outcome (filter reported xs)
      = map snd (filter fst (map (\<lambda>wk. (reported wk, outcome wk)) xs))" for xs
    by (induction xs) auto
  have "map outcome (filter reported (ws[w := wk'])) = map outcome (filter reported ws)"
    by (simp only: f e)
  then show ?thesis by (rule arg_cong)
qed

lemma worker_step_recv:
  assumes "q_lastErr s = last_error (received s)"
    and "recv_i s = maxQueriesPerGoroutine * length (received s)"
    and "mset (received s) = mset (map outcome (filter reported (workers s)))"
  shows "q_lastErr (worker_step n w s) = last_error (received (worker_step n w s))
       \<and> recv_i (worker_step n w s) = maxQueriesPerGoroutine * length (received (worker_step n w s))
       \<and> mset (received (worker_step n w s))
           = mset (map outcome (filter reported (workers (worker_step n w s))))"
proof (rule worker_step_cases[of n w s], goal_cases)
  case 1
  with assms show ?case by simp
next
  case (2 wk)
  have "mset (map outcome (filter reported ((workers s)[w := wk\<lparr>reported := True\<rparr>])))
      = add_mset (outcome wk) (mset (map outcome (filter reported (workers s))))"
    using mset_reported_update[of w "workers s"] 2 by simp
  with assms show ?case by (simp add: last_error_snoc)
next
  case (3 wk q e rest)
  have "mset (map outcome (filter reported ((workers s)[w := wk\<lparr>todo := rest\<rparr>])))
      = mset (map outcome (filter reported (workers s)))"
    using 3 by (intro mset_reported_same) simp_all
  with assms show ?case by simp
next
  case (4 wk q e rest)
  have "mset (map outcome (filter reported ((workers s)[w := wk\<lparr>locking := True\<rparr>])))
      = mset (map outcome (filter reported (workers s)))"
    using 4 by (intro mset_reported_same) simp_all
  with assms show ?case by simp
next
  case (5 wk q e rest)
  have "mset (map outcome (filter reported ((workers s)[w := wk\<lparr>todo := rest, locking := False\<rparr>])))
      = mset (map outcome (filter reported (workers s)))"
    using 5 by (intro mset_reported_same) simp_all
  with assms show ?case by simp
qed

lemma worker_step_outcomes:
  "map outcome (workers (worker_step n w s)) = map outcome (workers s)"
proof (rule worker_step_cases[of n w s], goal_cases)
  case 1
  then show ?case by simp
next
  case (2 wk)
  then show ?case by (simp add: map_update list_update_same_conv)
next
  case (3 wk q e rest)
  then show ?case by (simp add: map_update list_update_same_conv)
next
  case (4 wk q e rest)
  then show ?case by (simp add: map_update list_update_same_conv)
next
  case (5 wk q e rest)
  then show ?case by (simp add: map_update list_update_same_conv)
qed

lemma worker_step_reported_done:
  assumes "\<forall>k<length (workers s). reported (workers s ! k) \<longrightarrow> todo (workers s ! k) = []"
  shows "\<forall>k<length (workers (worker_step n w s)).
           reported (workers (worker_step n w s) ! k) \<longrightarrow> todo (workers (worker_step n w s) ! k) = []"
proof (rule worker_step_cases[of n w s], goal_cases)
  case 1
  with assms show ?case by simp
next
  case (2 wk)
  with assms show ?case by (simp add: nth_list_update)
next
  case (3 wk q e rest)
  with assms show ?case by (simp add: nth_list_update)
next
  case (4 wk q e rest)
  with assms show ?case by (simp add: nth_list_update)
next
  case (5 wk q e rest)
  with assms show ?case by (simp add: nth_list_update)
qed

subsection \<open>Progress of the fan-out\<close>

lemma exec_left_update:
  assumes "w < length (workers s)" "worker_left wk' < worker_left (workers s ! w)"
  shows "sum_list (map worker_left ((workers s)[w := wk'])) < exec_left s"
proof -
  let ?xs = "map worker_left (workers s)"
  have w: "w < length ?xs" using assms(1) by simp
  have le: "?xs ! w \<le> sum_list ?xs"
    using w by (intro member_le_sum_list nth_mem) simp_all
  have "sum_list (?xs[w := worker_left wk']) = sum_list ?xs + worker_left wk' - ?xs ! w"
    using w by (rule sum_list_update)
  with le assms show ?thesis
    by (simp add: exec_left_def map_update)
qed

lemma worker_step_progress:
  assumes w: "w < length (workers s)" and nr: "\<not> reported (workers s ! w)" and r: "recv_i s < n"
  shows "exec_left (worker_step n w s) < exec_left s"
proof (cases "todo (workers s ! w)")
  case Nil
  let ?wk' = "(workers s ! w)\<lparr>reported := True\<rparr>"
  have "workers (worker_step n w s) = (workers s)[w := ?wk']"
    using w nr r Nil by (simp add: worker_step_def Let_def)
  moreover have "worker_left ?wk' < worker_left (workers s ! w)"
    using nr Nil by (simp add: worker_left_def)
  ultimately show ?thesis
    using exec_left_update[OF w, of ?wk'] by (simp add: exec_left_def)
next
  case (Cons qe rest)
  obtain q e where qe: "qe = (q, e)" by (cases qe)
  note td = Cons[unfolded qe]
  show ?thesis
  proof (cases "locking (workers s ! w)")
    case True
    let ?wk' = "(workers s ! w)\<lparr>todo := rest, locking := False\<rparr>"
    have "workers (worker_step n w s) = (workers s)[w := ?wk']"
      using w nr td True
      by (cases "isSeen_Locked (deduper s) (HashValue q) (fst e)")
         (simp add: worker_step_def Let_def)
    moreover have "worker_left ?wk' < worker_left (workers s ! w)"
      using nr td True by (simp add: worker_left_def)
    ultimately show ?thesis
      using exec_left_update[OF w, of ?wk'] by (simp add: exec_left_def)
  next
    case False
    show ?thesis
    proof (cases "seenRange (deduper s) (HashValue q) (fst e)")
      case True
      let ?wk' = "(workers s ! w)\<lparr>todo := rest\<rparr>"
      have "workers (worker_step n w s) = (workers s)[w := ?wk']"
        using w nr td False True by (simp add: worker_step_def Let_def isSeen_RLocked_def)
      moreover have "worker_left ?wk' < worker_left (workers s ! w)"
        using nr td False by (simp add: worker_left_def)
      ultimately show ?thesis
        using exec_left_update[OF w, of ?wk'] by (simp add: exec_left_def)
    next
      case F2: False
      let ?wk' = "(workers s ! w)\<lparr>locking := True\<rparr>"
      have "workers (worker_step n w s) = (workers s)[w := ?wk']"
        using w nr td False F2 by (simp add: worker_step_def Let_def isSeen_RLocked_def)
      moreover have "worker_left ?wk' < worker_left (workers s ! w)"
        using nr td False by (simp add: worker_left_def)
      ultimately show ?thesis
        using exec_left_update[OF w, of ?wk'] by (simp add: exec_left_def)
    qed
  qed
qed

lemma worker_step_count:
  assumes "recv_i s = maxQueriesPerGoroutine * length (filter reported (workers s))"
  shows "recv_i (worker_step n w s)
       = maxQueriesPerGoroutine * length (filter reported (workers (worker_step n w s)))
       \<and> length (workers (worker_step n w s)) = length (workers s)"
proof -
  have l: "length (filter reported xs) = size (mset (map outcome (filter reported xs)))" for xs :: "('a, 'b) worker list"
    by (simp only: size_mset length_map)
  show ?thesis
  proof (rule worker_step_cases[of n w s], goal_cases)
    case 1
    with assms show ?case by simp
  next
    case (2 wk)
    have "mset (map outcome (filter reported ((workers s)[w := wk\<lparr>reported := True\<rparr>])))
        = add_mset (outcome wk) (mset (map outcome (filter reported (workers s))))"
      using mset_reported_update[of w "workers s"] 2 by simp
    then have "length (filter reported ((workers s)[w := wk\<lparr>reported := True\<rparr>]))
        = Suc (length (filter reported (workers s)))"
      unfolding l by simp
    with assms show ?case by simp
  next
    case (3 wk q e rest)
    have "mset (map outcome (filter reported ((workers s)[w := wk\<lparr>todo := rest\<rparr>])))
        = mset (map outcome (filter reported (workers s)))"
      using 3 by (intro mset_reported_same) simp_all
    then have "length (filter reported ((workers s)[w := wk\<lparr>todo := rest\<rparr>]))
        = length (filter reported (workers s))"
      unfolding l by simp
    with assms show ?case by simp
  next
    case (4 wk q e rest)
    have "mset (map outcome (filter reported ((workers s)[w := wk\<lparr>locking := True\<rparr>])))
        = mset (map outcome (filter reported (workers s)))"
      using 4 by (intro mset_reported_same) simp_all
    then have "length (filter reported ((workers s)[w := wk\<lparr>locking := True\<rparr>]))
        = length (filter reported (workers s))"
      unfolding l by simp
    with assms show ?case by simp
  next
    case (5 wk q e rest)
    have "mset (map outcome (filter reported ((workers s)[w := wk\<lparr>todo := rest, locking := False\<rparr>])))
        = mset (map outcome (filter reported (workers s)))"
      using 5 by (intro mset_reported_same) simp_all
    then have "length (filter reported ((workers s)[w := wk\<lparr>todo := rest, locking := False\<rparr>]))
        = length (filter reported (workers s))"
      unfolding l by simp
    with assms show ?case by simp
  qed
qed

lemma unreported_exists:
  assumes "length (filter reported ws) < length ws"
  shows "\<exists>w<length ws. \<not> reported (ws ! w)"
proof (rule ccontr)
  assume "\<not> (\<exists>w<length ws. \<not> reported (ws ! w))"
  then have "\<forall>x\<in>set ws. reported x" by (auto simp: in_set_conv_nth)
  then have "filter reported ws = ws" by simp
  with assms show False by simp
qed

lemma all_reported:
  assumes "length ws \<le> length (filter reported ws)"
  shows "filter reported ws = ws"
proof -
  have "length (filter reported ws) + length (filter (\<lambda>x. \<not> reported x) ws) = length ws"
    by (rule sum_length_filter_compl)
  with assms have "length (filter (\<lambda>x. \<not> reported x) ws) = 0" by linarith
  then have "filter (\<lambda>x. \<not> reported x) ws = []" by (simp only: length_0_conv)
  then have "\<forall>x\<in>set ws. reported x" by (simp add: filter_empty_conv)
  then show ?thesis by simp
qed

lemma exec_completes:
  assumes "recv_i s = maxQueriesPerGoroutine * length (filter reported (workers s))"
    and "n \<le> maxQueriesPerGoroutine * length (workers s)"
  shows "\<exists>sched. \<not> recv_i (exec_run n sched s) < n"
  using assms
proof (induction "exec_left s" arbitrary: s rule: less_induct)
  case less
  show ?case
  proof (cases "recv_i s < n")
    case False
    then have "\<not> recv_i (exec_run n [] s) < n" by simp
    then show ?thesis by blast
  next
    case True
    with less.prems have "length (filter reported (workers s)) < length (workers s)"
      by (auto simp: maxQueriesPerGoroutine_def)
    then obtain w where w: "w < length (workers s)" "\<not> reported (workers s ! w)"
      using unreported_exists by blast
    let ?s = "worker_step n w s"
    have p: "exec_left ?s < exec_left s" using w True by (rule worker_step_progress)
    from worker_step_count[OF less.prems(1), of n w]
    have c: "recv_i ?s = maxQueriesPerGoroutine * length (filter reported (workers ?s))"
      and l: "length (workers ?s) = length (workers s)" by simp_all
    from less.hyps[OF p c] less.prems(2) l
    obtain sched where "\<not> recv_i (exec_run n sched ?s) < n" by auto
    then have "\<not> recv_i (exec_run n (w # sched) s) < n" by simp
    then show ?thesis by blast
  qed
qed

subsection \<open>The dispatch loop\<close>

lemma dispatch_loop_done: "\<not> i < length queries \<Longrightarrow> dispatch_loop i queries = []"
  by (subst dispatch_loop.simps) simp

lemma dispatch_loop_more:
  "i < length queries \<Longrightarrow> dispatch_loop i queries
     = take (min 100 (length queries - i)) (drop i queries) # dispatch_loop (i + 100) queries"
  by (subst dispatch_loop.simps)
     (simp add: slice_def maxQueriesPerGoroutine_def min_def)


lemma map_length_dispatch_loop:
  "map length (dispatch_loop i queries)
     = replicate ((length queries - i) div 100) 100
       @ (if (length queries - i) mod 100 = 0 then [] else [(length queries - i) mod 100])"
proof (induction i queries rule: dispatch_loop.induct)
  case (1 i queries)
  let ?m = "length queries - i"
  show ?case
  proof (cases "i < length queries")
    case False
    then show ?thesis by (simp add: dispatch_loop_done)
  next
    case True
    note IH = 1[OF True, unfolded maxQueriesPerGoroutine_def]
    show ?thesis
    proof (cases "100 \<le> ?m")
      case ge: True
      have m': "length queries - (i + 100) = ?m - 100" by simp
      have d: "?m div 100 = Suc ((?m - 100) div 100)" using ge by (simp add: le_div_geq)
      have md: "?m mod 100 = (?m - 100) mod 100" using ge by (simp add: le_mod_geq)
      have hd: "length (take (min 100 ?m) (drop i queries)) = 100" using ge by simp
      show ?thesis
        unfolding dispatch_loop_more[OF True] list.map hd IH m' d md by simp
    next
      case lt: False
      then have r: "dispatch_loop (i + 100) queries = []"
        by (intro dispatch_loop_done) simp
      have hd: "length (take (min 100 ?m) (drop i queries)) = ?m" using lt by simp
      have "?m div 100 = 0" "?m mod 100 = ?m" "?m \<noteq> 0" using lt True by simp_all
      then show ?thesis
        unfolding dispatch_loop_more[OF True] list.map hd r by simp
    qed
  qed
qed

lemma ceil_div_100: "((n::nat) + 99) div 100 = n div 100 + (if n mod 100 = 0 then 0 else 1)"
proof -
  let ?q = "n div 100" and ?r = "n mod 100"
  have n: "n = 100 * ?q + ?r" by simp
  have r: "?r < 100" by simp
  have "(n + 99) div 100 = (100 * ?q + (?r + 99)) div 100"
    by (subst n) (simp only: add.assoc)
  also have "\<dots> = ?q + (?r + 99) div 100"
    by (simp only: div_mult_self4) 
  also have "(?r + 99) div 100 = (if ?r = 0 then 0 else 1)"
  proof (cases "?r = 0")
    case True
    then show ?thesis by simp
  next
    case False
    have "(?r + 99) div 100 = 1"
      by (rule div_nat_eqI) (use False r in simp_all)
    with False show ?thesis by simp
  qed
  finally show ?thesis .
qed

lemma length_dispatch_loop:
  "length (dispatch_loop 0 queries) = (length queries + 99) div 100"
proof -
  have "length (dispatch_loop 0 queries) = length (map length (dispatch_loop 0 queries))" by simp
  also have "\<dots> = length queries div 100 + (if length queries mod 100 = 0 then 0 else 1)"
    unfolding map_length_dispatch_loop by simp
  also have "\<dots> = (length queries + 99) div 100" by (simp only: ceil_div_100)
  finally show ?thesis .
qed




subsection \<open>The counter of entries sent\<close>

lemma storedPairs_Locked:
  "storedPairs (snd (isSeen_Locked i h r)) = storedPairs i + (if seenRange i h r then 0 else 1)"
proof (cases "seenRange i h r")
  case True
  then show ?thesis by (simp add: isSeen_Locked_def)
next
  case False
  let ?m = "seenRangeValues i"
  let ?g = "\<lambda>m h. case fmlookup m h of None \<Rightarrow> 0 | Some rs \<Rightarrow> fcard rs"
  show ?thesis
  proof (cases "fmlookup ?m h")
    case None
    then have nd: "h \<notin> fmdom' ?m" by (simp add: fmdom'_notI)
    have m2: "seenRangeValues (snd (isSeen_Locked i h r)) = fmupd h {|r|} ?m"
      using False None by (simp add: isSeen_Locked_def Let_def)
    have "storedPairs (snd (isSeen_Locked i h r))
        = (\<Sum>k \<in> insert h (fmdom' ?m). ?g (fmupd h {|r|} ?m) k)"
      by (simp add: storedPairs_def m2)
    also have "\<dots> = ?g (fmupd h {|r|} ?m) h + (\<Sum>k \<in> fmdom' ?m. ?g (fmupd h {|r|} ?m) k)"
      using nd by simp
    also have "(\<Sum>k \<in> fmdom' ?m. ?g (fmupd h {|r|} ?m) k) = (\<Sum>k \<in> fmdom' ?m. ?g ?m k)"
      using nd by (intro sum.cong) auto
    finally show ?thesis using False by (simp add: storedPairs_def fcard_finsert_if)
  next
    case (Some rs)
    then have d: "h \<in> fmdom' ?m" by (simp add: fmdom'I)
    from False Some have nr: "r |\<notin>| rs" by (simp add: seenRange_def)
    have m2: "seenRangeValues (snd (isSeen_Locked i h r)) = fmupd h (finsert r rs) ?m"
      using False Some by (simp add: isSeen_Locked_def Let_def)
    have ins: "insert h (fmdom' ?m) = fmdom' ?m" using d by auto
    have "storedPairs (snd (isSeen_Locked i h r))
        = (\<Sum>k \<in> fmdom' ?m. ?g (fmupd h (finsert r rs) ?m) k)"
      by (simp add: storedPairs_def m2 ins)
    also have "\<dots> = ?g (fmupd h (finsert r rs) ?m) h
                     + (\<Sum>k \<in> fmdom' ?m - {h}. ?g (fmupd h (finsert r rs) ?m) k)"
      using d by (simp add: sum.remove)
    also have "(\<Sum>k \<in> fmdom' ?m - {h}. ?g (fmupd h (finsert r rs) ?m) k)
             = (\<Sum>k \<in> fmdom' ?m - {h}. ?g ?m k)"
      by (intro sum.cong) auto
    also have "?g (fmupd h (finsert r rs) ?m) h = ?g ?m h + 1"
      using nr Some by (simp add: fcard_finsert_disjoint)
    finally have "storedPairs (snd (isSeen_Locked i h r))
        = (?g ?m h + (\<Sum>k \<in> fmdom' ?m - {h}. ?g ?m k)) + 1" by simp
    also have "?g ?m h + (\<Sum>k \<in> fmdom' ?m - {h}. ?g ?m k) = (\<Sum>k \<in> fmdom' ?m. ?g ?m k)"
      using d by (simp add: sum.remove)
    finally show ?thesis using False by (simp add: storedPairs_def)
  qed
qed

lemma storedPairs_New: "storedPairs NewIndexDeduper = 0"
  by (simp add: storedPairs_def NewIndexDeduper_def)

lemma isSeen_Locked_counts:
  assumes "numEntriesSent i = int (storedPairs i)"
  shows "numEntriesSent (snd (isSeen_Locked i h r)) = int (storedPairs (snd (isSeen_Locked i h r)))"
  using assms by (simp add: numEntriesSent_Locked storedPairs_Locked)

lemma worker_step_counts:
  assumes "numEntriesSent (deduper s) = int (storedPairs (deduper s))"
  shows "numEntriesSent (deduper (worker_step n w s)) = int (storedPairs (deduper (worker_step n w s)))"
proof (rule worker_step_cases[of n w s], goal_cases)
  case 1
  with assms show ?case by simp
next
  case (2 wk)
  with assms show ?case by simp
next
  case (3 wk q e rest)
  with assms show ?case by simp
next
  case (4 wk q e rest)
  with assms show ?case by simp
next
  case (5 wk q e rest)
  from isSeen_Locked_counts[OF assms] show ?case by simp
qed

lemma exec_run_counts:
  assumes "numEntriesSent (deduper s) = int (storedPairs (deduper s))"
  shows "numEntriesSent (deduper (exec_run n sched s)) = int (storedPairs (deduper (exec_run n sched s)))"
  using assms
  by (rule exec_run_invariant[where P = "\<lambda>s. numEntriesSent (deduper s) = int (storedPairs (deduper s))"])
     (rule worker_step_counts)

text \<open>
  C10. \<open>numEntriesSent\<close> equals the number of pairs stored in \<open>seenRangeValues\<close>: at
  construction both are zero; a call of \<open>isSeen\<close>, and its write-locked section on
  its own, keep them equal, adding one to each exactly when the pair was not yet
  stored; and so they are equal in every state that interleaved workers reach from
  a new deduper.
\<close>

theorem numEntriesSent_counts_stored_pairs:
  "numEntriesSent NewIndexDeduper = 0 \<and> storedPairs NewIndexDeduper = 0
   \<and> (numEntriesSent i = int (storedPairs i) \<longrightarrow>
        numEntriesSent (snd (isSeen i h r)) = int (storedPairs (snd (isSeen i h r)))
        \<and> numEntriesSent (snd (isSeen_Locked i h r)) = int (storedPairs (snd (isSeen_Locked i h r))))
   \<and> numEntriesSent (snd (isSeen i h r)) = numEntriesSent i + (if seenRange i h r then 0 else 1)
   \<and> storedPairs (snd (isSeen i h r)) = storedPairs i + (if seenRange i h r then 0 else 1)
   \<and> numEntriesSent (deduper (exec_run n sched (exec_init NewIndexDeduper ws)))
       = int (storedPairs (deduper (exec_run n sched (exec_init NewIndexDeduper ws))))"
proof -
  have 0: "numEntriesSent NewIndexDeduper = 0" by (simp add: NewIndexDeduper_def)
  have "numEntriesSent (deduper (exec_init NewIndexDeduper ws))
      = int (storedPairs (deduper (exec_init NewIndexDeduper ws)))"
    by (simp add: exec_init_def storedPairs_New 0)
  then have r: "numEntriesSent (deduper (exec_run n sched (exec_init NewIndexDeduper ws)))
       = int (storedPairs (deduper (exec_run n sched (exec_init NewIndexDeduper ws))))"
    by (rule exec_run_counts)
  show ?thesis
    using 0 r isSeen_Locked_counts[of i h r]
    by (simp add: storedPairs_New isSeen_eq_Locked numEntriesSent_Locked storedPairs_Locked)
qed

theorem numEntriesSent_counts_stored_pairs_witness:
  "numEntriesSent (snd (isSeen NewIndexDeduper ''h1'' ''r1'')) = 1
   \<and> storedPairs (snd (isSeen NewIndexDeduper ''h1'' ''r1'')) = 1
   \<and> numEntriesSent (snd (isSeen (snd (isSeen NewIndexDeduper ''h1'' ''r1'')) ''h1'' ''r2''))
       = int (storedPairs (snd (isSeen (snd (isSeen NewIndexDeduper ''h1'' ''r1'')) ''h1'' ''r2'')))
   \<and> numEntriesSent (snd (isSeen (snd (isSeen NewIndexDeduper ''h1'' ''r1'')) ''h1'' ''r2'')) = 2"
proof -
  let ?i = "snd (isSeen NewIndexDeduper ''h1'' ''r1'')"
  have n: "numEntriesSent ?i = 1"
    by (simp add: isSeen_def isSeen_RLocked_def isSeen_Locked_def seenRange_def NewIndexDeduper_def)
  have p: "storedPairs ?i = 1"
    by (simp add: storedPairs_def isSeen_def isSeen_RLocked_def isSeen_Locked_def seenRange_def
        NewIndexDeduper_def fcard_finsert_if)
  have h: "numEntriesSent ?i = int (storedPairs ?i)" using n p by simp
  have ns: "\<not> seenRange ?i ''h1'' ''r2''"
    by (simp add: isSeen_def isSeen_RLocked_def isSeen_Locked_def seenRange_def NewIndexDeduper_def)
  note T = numEntriesSent_counts_stored_pairs[of ?i "''h1''" "''r2''"]
  have a: "numEntriesSent (snd (isSeen ?i ''h1'' ''r2'')) = int (storedPairs (snd (isSeen ?i ''h1'' ''r2'')))"
    using T[THEN conjunct2, THEN conjunct2, THEN conjunct1, THEN mp, OF h] by (rule conjunct1)
  have b: "numEntriesSent (snd (isSeen ?i ''h1'' ''r2'')) = 2"
    using T[THEN conjunct2, THEN conjunct2, THEN conjunct2, THEN conjunct1] n ns by simp
  show ?thesis using n p a b by (intro conjI)
qed

subsection \<open>Batches of recorded entries\<close>

lemma filteringBatchIter_Next_all_seen:
  assumes "remaining (fi_ReadBatchIterator it) = es"
    and "\<forall>e\<in>set es. seenRange i (HashValue (fi_query it)) (fst e)"
  shows "filteringBatchIter_Next it i
       = (False, it\<lparr>fi_ReadBatchIterator := \<lparr>remaining = [], current = None\<rparr>\<rparr>, i)"
  using assms
proof (induction es arbitrary: it)
  case Nil
  then show ?case by (simp add: filteringBatchIter_Next_Nil)
next
  case (Cons e es)
  let ?it2 = "it\<lparr>fi_ReadBatchIterator := \<lparr>remaining = es, current = Some e\<rparr>\<rparr>"
  have "filteringBatchIter_Next ?it2 i
      = (False, ?it2\<lparr>fi_ReadBatchIterator := \<lparr>remaining = [], current = None\<rparr>\<rparr>, i)"
    using Cons.prems by (intro Cons.IH) simp_all
  with Cons.prems show ?case
    by (simp add: filteringBatchIter_Next_Cons)
qed

lemma consume_all_all_seen:
  assumes "remaining (fi_ReadBatchIterator it) = es"
    and "\<forall>e\<in>set es. seenRange i (HashValue (fi_query it)) (fst e)"
  shows "consume_all it i = ([], it\<lparr>fi_ReadBatchIterator := \<lparr>remaining = [], current = None\<rparr>\<rparr>, i)"
  by (subst consume_all.simps) (simp add: filteringBatchIter_Next_all_seen[OF assms])

lemma filteringBatchIter_Next_fresh:
  assumes "filteringBatchIter_Next it i = (True, it', i')"
  shows "\<not> seenRange i (HashValue (fi_query it)) (RangeValue (fi_ReadBatchIterator it'))
       \<and> seenRange i' (HashValue (fi_query it)) (RangeValue (fi_ReadBatchIterator it'))
       \<and> current (fi_ReadBatchIterator it') \<in> Some ` set (remaining (fi_ReadBatchIterator it))"
proof -
  have "remaining (fi_ReadBatchIterator it) = es \<Longrightarrow> filteringBatchIter_Next it i = (True, it', i')
        \<Longrightarrow> ?thesis" for es
  proof (induction es arbitrary: it)
    case Nil
    then show ?case by (simp add: filteringBatchIter_Next_Nil)
  next
    case (Cons e es)
    let ?it2 = "it\<lparr>fi_ReadBatchIterator := \<lparr>remaining = es, current = Some e\<rparr>\<rparr>"
    show ?case
    proof (cases "seenRange i (HashValue (fi_query it)) (fst e)")
      case True
      with Cons.prems have "filteringBatchIter_Next ?it2 i = (True, it', i')"
        by (simp add: filteringBatchIter_Next_Cons)
      from Cons.IH[OF _ this] Cons.prems(1) show ?thesis by auto
    next
      case False
      with Cons.prems have "it' = ?it2" "i' = snd (isSeen_Locked i (HashValue (fi_query it)) (fst e))"
        by (simp_all add: filteringBatchIter_Next_Cons)
      with False Cons.prems(1) show ?thesis
        by (simp add: RangeValue_def seenRange_Locked)
    qed
  qed
  with assms show ?thesis by blast
qed

lemma filteringBatchIter_Next_dropWhile:
  assumes "remaining (fi_ReadBatchIterator it) = es"
  shows "filteringBatchIter_Next it i
       = (case dropWhile (\<lambda>e. seenRange i (HashValue (fi_query it)) (fst e)) es of
            [] \<Rightarrow> (False, it\<lparr>fi_ReadBatchIterator := \<lparr>remaining = [], current = None\<rparr>\<rparr>, i)
          | e # rest \<Rightarrow>
              (True, it\<lparr>fi_ReadBatchIterator := \<lparr>remaining = rest, current = Some e\<rparr>\<rparr>,
               snd (isSeen i (HashValue (fi_query it)) (fst e))))"
  using assms
proof (induction es arbitrary: it)
  case Nil
  then show ?case by (simp add: filteringBatchIter_Next_Nil)
next
  case (Cons e es)
  let ?it2 = "it\<lparr>fi_ReadBatchIterator := \<lparr>remaining = es, current = Some e\<rparr>\<rparr>"
  show ?case
  proof (cases "seenRange i (HashValue (fi_query it)) (fst e)")
    case True
    have "filteringBatchIter_Next it i = filteringBatchIter_Next ?it2 i"
      using Cons.prems True by (simp add: filteringBatchIter_Next_Cons)
    also have "\<dots> = (case dropWhile (\<lambda>e. seenRange i (HashValue (fi_query ?it2)) (fst e)) es of
            [] \<Rightarrow> (False, ?it2\<lparr>fi_ReadBatchIterator := \<lparr>remaining = [], current = None\<rparr>\<rparr>, i)
          | e # rest \<Rightarrow>
              (True, ?it2\<lparr>fi_ReadBatchIterator := \<lparr>remaining = rest, current = Some e\<rparr>\<rparr>,
               snd (isSeen i (HashValue (fi_query ?it2)) (fst e))))"
      by (rule Cons.IH) simp
    finally show ?thesis using True by (simp cong: list.case_cong)
  next
    case False
    with Cons.prems show ?thesis
      by (simp add: filteringBatchIter_Next_Cons isSeen_eq_Locked)
  qed
qed

lemma consume_all_filtered_view:
  assumes "remaining (fi_ReadBatchIterator it) = es"
  shows "fst (consume_all it i) = filtered_view (seenRange i (HashValue (fi_query it))) es"
  using assms
proof (induction es arbitrary: it i)
  case Nil
  then show ?case by (simp add: consume_all_Nil)
next
  case (Cons e es)
  let ?h = "HashValue (fi_query it)"
  let ?it2 = "it\<lparr>fi_ReadBatchIterator := \<lparr>remaining = es, current = Some e\<rparr>\<rparr>"
  have r2: "remaining (fi_ReadBatchIterator ?it2) = es" by simp
  show ?case
  proof (cases "seenRange i ?h (fst e)")
    case True
    with Cons.prems have "consume_all it i = consume_all ?it2 i"
      by (simp add: consume_all_Cons)
    with Cons.IH[OF r2, of i] True show ?thesis by simp
  next
    case False
    let ?i2 = "snd (isSeen_Locked i ?h (fst e))"
    have s: "seenRange ?i2 ?h = (\<lambda>r. r = fst e \<or> seenRange i ?h r)"
      by (rule ext) (auto simp: seenRange_Locked)
    from Cons.prems False have "fst (consume_all it i) = e # fst (consume_all ?it2 ?i2)"
      by (simp add: consume_all_Cons split: prod.splits)
    with Cons.IH[OF r2, of ?i2] False s show ?thesis by simp
  qed
qed

lemma filtered_view_keys:
  "fst ` set (filtered_view p es) = fst ` set es - {r. p r}"
proof (induction es arbitrary: p)
  case Nil
  show ?case by simp
next
  case (Cons e es)
  show ?case
  proof (cases "p (fst e)")
    case True
    with Cons.IH[of p] show ?thesis by auto
  next
    case False
    have "fst ` set (filtered_view p (e # es))
        = insert (fst e) (fst ` set (filtered_view (\<lambda>r. r = fst e \<or> p r) es))"
      using False by simp
    also have "\<dots> = insert (fst e) (fst ` set es - {r. r = fst e \<or> p r})"
      by (simp only: Cons.IH)
    also have "\<dots> = fst ` set (e # es) - {r. p r}"
      using False by auto
    finally show ?thesis .
  qed
qed

lemma filtered_view_subseq: "subseq (filtered_view p es) es"
  by (induction es arbitrary: p) (auto intro: list_emb_Cons)

lemma filtered_view_distinct: "distinct (map fst (filtered_view p es))"
proof (induction es arbitrary: p)
  case Nil
  show ?case by simp
next
  case (Cons e es)
  have "fst e \<notin> fst ` set (filtered_view (\<lambda>r. r = fst e \<or> p r) es)"
    unfolding filtered_view_keys by simp
  with Cons.IH show ?case by simp
qed

lemma filtered_view_first:
  "x \<in> set (filtered_view p es) \<Longrightarrow> find (\<lambda>y. fst y = fst x) es = Some x"
proof (induction es arbitrary: p)
  case Nil
  then show ?case by simp
next
  case (Cons e es)
  show ?case
  proof (cases "p (fst e)")
    case True
    with Cons.prems have x: "x \<in> set (filtered_view p es)" by simp
    then have "fst x \<in> fst ` set (filtered_view p es)" by (rule imageI)
    then have "\<not> p (fst x)" unfolding filtered_view_keys by simp
    with True have "fst e \<noteq> fst x" by auto
    with Cons.IH[OF x] show ?thesis by simp
  next
    case False
    show ?thesis
    proof (cases "x = e")
      case True
      then show ?thesis by simp
    next
      case F: False
      with False Cons.prems have x: "x \<in> set (filtered_view (\<lambda>r. r = fst e \<or> p r) es)" by simp
      then have "fst x \<in> fst ` set (filtered_view (\<lambda>r. r = fst e \<or> p r) es)" by (rule imageI)
      then have "fst x \<noteq> fst e" unfolding filtered_view_keys by simp
      then have "fst e \<noteq> fst x" by simp
      with Cons.IH[OF x] show ?thesis by simp
    qed
  qed
qed

lemma filtered_view_fresh:
  "distinct (map fst es) \<Longrightarrow> \<forall>e\<in>set es. \<not> p (fst e) \<Longrightarrow> filtered_view p es = es"
proof (induction es arbitrary: p)
  case Nil
  show ?case by simp
next
  case (Cons e es)
  have a: "\<forall>x\<in>set es. \<not> (fst x = fst e \<or> p (fst x))"
  proof
    fix x assume x: "x \<in> set es"
    then have "fst x \<in> fst ` set es" by (rule imageI)
    moreover from Cons.prems have "fst e \<notin> fst ` set es" by simp
    ultimately have "fst x \<noteq> fst e" by metis
    moreover from Cons.prems x have "\<not> p (fst x)" by simp
    ultimately show "\<not> (fst x = fst e \<or> p (fst x))" by simp
  qed
  from Cons.prems have d: "distinct (map fst es)" by simp
  have "filtered_view (\<lambda>r. r = fst e \<or> p r) es = es"
    using d a by (rule Cons.IH)
  moreover from Cons.prems have "\<not> p (fst e)" by simp
  ultimately show ?case by simp
qed


text \<open>
  C9. \<open>IndexDeduper.Callback\<close> invokes the wrapped callback once, on the query and the
  filtering view of the batch, and returns its result and state: observed with a
  recording callback, the log grows by exactly that one invocation and the boolean
  is the wrapped callback's. The view is over the batch handed in: its iterator
  starts before the first entry of that batch, with the query of the call. Each
  \<open>Next()\<close> skips the entries whose range value is recorded and stops on the first
  one that is not, recording it; it is \<open>false\<close> when none is left. A consumer that
  reads the view to its end gets the entries of \<open>filtered_view\<close>: a subsequence of
  the batch, with pairwise different range values, carrying exactly the range values
  of the batch that were not recorded before, each by the first entry of the batch
  that has it; afterwards the range values of the batch are recorded as well. A
  batch of pairwise different unrecorded range values passes whole. When every
  entry of the batch is already recorded, the first \<open>Next()\<close> of the filtering
  iterator is \<open>false\<close>, a consumer of the whole batch gets no entry, the deduper is
  unchanged, and the callback is invoked all the same.
\<close>

theorem Callback_invokes_downstream_once:
  "Callback (recording callback) query batch (i, u, log)
     = (case callback query \<lparr>fb_query = query, fb_ReadBatch = batch\<rparr> (i, u) of
          (r, i', u') \<Rightarrow> (r, i', u', log @ [(query, \<lparr>fb_query = query, fb_ReadBatch = batch\<rparr>)]))
   \<and> fst (Callback (recording callback) query batch (i, u, log))
       = fst (callback query \<lparr>fb_query = query, fb_ReadBatch = batch\<rparr> (i, u))
   \<and> filteringBatch_Iterator \<lparr>fb_query = query, fb_ReadBatch = batch\<rparr>
       = \<lparr>fi_query = query, fi_ReadBatchIterator = \<lparr>remaining = batch, current = None\<rparr>\<rparr>
   \<and> filteringBatchIter_Next (filteringBatch_Iterator \<lparr>fb_query = query, fb_ReadBatch = batch\<rparr>) i
       = (case dropWhile (\<lambda>e. seenRange i (HashValue query) (fst e)) batch of
            [] \<Rightarrow> (False, \<lparr>fi_query = query,
                           fi_ReadBatchIterator = \<lparr>remaining = [], current = None\<rparr>\<rparr>, i)
          | e # rest \<Rightarrow>
              (True, \<lparr>fi_query = query,
                      fi_ReadBatchIterator = \<lparr>remaining = rest, current = Some e\<rparr>\<rparr>,
               snd (isSeen i (HashValue query) (fst e))))
   \<and> fst (consume_all (filteringBatch_Iterator \<lparr>fb_query = query, fb_ReadBatch = batch\<rparr>) i)
       = filtered_view (seenRange i (HashValue query)) batch
   \<and> subseq (filtered_view (seenRange i (HashValue query)) batch) batch
   \<and> distinct (map fst (filtered_view (seenRange i (HashValue query)) batch))
   \<and> fst ` set (filtered_view (seenRange i (HashValue query)) batch)
       = fst ` set batch - {r. seenRange i (HashValue query) r}
   \<and> (\<forall>e\<in>set (filtered_view (seenRange i (HashValue query)) batch).
         find (\<lambda>x. fst x = fst e) batch = Some e)
   \<and> (\<forall>h r. seenRange (snd (snd (consume_all
                 (filteringBatch_Iterator \<lparr>fb_query = query, fb_ReadBatch = batch\<rparr>) i))) h r
         \<longleftrightarrow> seenRange i h r \<or> (h = HashValue query \<and> r \<in> fst ` set batch))
   \<and> Callback (recording record_all_callback) query batch (i, got, log')
       = (True,
          snd (snd (consume_all
            (filteringBatch_Iterator \<lparr>fb_query = query, fb_ReadBatch = batch\<rparr>) i)),
          got @ map (Pair query) (filtered_view (seenRange i (HashValue query)) batch),
          log' @ [(query, \<lparr>fb_query = query, fb_ReadBatch = batch\<rparr>)])
   \<and> (distinct (map fst batch) \<and> (\<forall>e\<in>set batch. \<not> seenRange i (HashValue query) (fst e)) \<longrightarrow>
        fst (consume_all
               (filteringBatch_Iterator \<lparr>fb_query = query, fb_ReadBatch = batch\<rparr>) i) = batch)
   \<and> ((\<forall>e\<in>set batch. seenRange i (HashValue query) (fst e)) \<longrightarrow>
        fst (filteringBatchIter_Next
               (filteringBatch_Iterator \<lparr>fb_query = query, fb_ReadBatch = batch\<rparr>) i) = False
        \<and> fst (consume_all
               (filteringBatch_Iterator \<lparr>fb_query = query, fb_ReadBatch = batch\<rparr>) i) = []
        \<and> Callback (recording record_all_callback) query batch (i, got, log')
            = (True, i, got, log' @ [(query, \<lparr>fb_query = query, fb_ReadBatch = batch\<rparr>)]))"
proof -
  let ?fb = "\<lparr>fb_query = query, fb_ReadBatch = batch\<rparr>"
  let ?it = "filteringBatch_Iterator ?fb"
  let ?fv = "filtered_view (seenRange i (HashValue query)) batch"
  have it: "?it = \<lparr>fi_query = query, fi_ReadBatchIterator = \<lparr>remaining = batch, current = None\<rparr>\<rparr>"
    by (simp add: filteringBatch_Iterator_def ReadBatch_Iterator_def)
  have r: "remaining (fi_ReadBatchIterator ?it) = batch" and q: "fi_query ?it = query"
    by (simp_all add: it)
  have 1: "Callback (recording callback) query batch (i, u, log)
     = (case callback query ?fb (i, u) of (r, i', u') \<Rightarrow> (r, i', u', log @ [(query, ?fb)]))"
    by (simp add: Callback_def recording_def)
  have 2: "fst (Callback (recording callback) query batch (i, u, log)) = fst (callback query ?fb (i, u))"
    unfolding 1 by (simp split: prod.splits)
  have 3: "filteringBatchIter_Next ?it i
       = (case dropWhile (\<lambda>e. seenRange i (HashValue query) (fst e)) batch of
            [] \<Rightarrow> (False, \<lparr>fi_query = query,
                           fi_ReadBatchIterator = \<lparr>remaining = [], current = None\<rparr>\<rparr>, i)
          | e # rest \<Rightarrow>
              (True, \<lparr>fi_query = query,
                      fi_ReadBatchIterator = \<lparr>remaining = rest, current = Some e\<rparr>\<rparr>,
               snd (isSeen i (HashValue query) (fst e))))"
    using filteringBatchIter_Next_dropWhile[OF r, of i]
    by (simp add: it cong: list.case_cong)
  have 4: "fst (consume_all ?it i) = ?fv"
    using consume_all_filtered_view[OF r, of i] by (simp add: q)
  have 5: "subseq ?fv batch" by (rule filtered_view_subseq)
  have 6: "distinct (map fst ?fv)" by (rule filtered_view_distinct)
  have 7: "fst ` set ?fv = fst ` set batch - {r. seenRange i (HashValue query) r}"
    by (rule filtered_view_keys)
  have 8: "\<forall>e\<in>set ?fv. find (\<lambda>x. fst x = fst e) batch = Some e"
    by (simp add: filtered_view_first)
  obtain out it' i' where c: "consume_all ?it i = (out, it', i')"
    by (cases "consume_all ?it i")
  from consume_all_spec[OF r c]
  have sp: "{(h, r). seenRange i' h r}
         = {(h, r). seenRange i h r} \<union> (\<lambda>e. (HashValue query, fst e)) ` set batch"
    by (simp add: q)
  have 9: "\<forall>h r. seenRange (snd (snd (consume_all ?it i))) h r
         \<longleftrightarrow> seenRange i h r \<or> (h = HashValue query \<and> r \<in> fst ` set batch)"
  proof (intro allI)
    fix h r
    have "seenRange i' h r \<longleftrightarrow> (h, r) \<in> {(h, r). seenRange i' h r}" by simp
    also have "\<dots> \<longleftrightarrow> seenRange i h r \<or> (h = HashValue query \<and> r \<in> fst ` set batch)"
      unfolding sp by auto
    finally show "seenRange (snd (snd (consume_all ?it i))) h r
         \<longleftrightarrow> seenRange i h r \<or> (h = HashValue query \<and> r \<in> fst ` set batch)"
      by (simp add: c)
  qed
  have 10: "Callback (recording record_all_callback) query batch (i, got, log')
       = (True, snd (snd (consume_all ?it i)), got @ map (Pair query) ?fv, log' @ [(query, ?fb)])"
    using 4 by (simp add: Callback_def recording_def record_all_callback_def c)
  have 11: "fst (consume_all ?it i) = batch"
    if "distinct (map fst batch) \<and> (\<forall>e\<in>set batch. \<not> seenRange i (HashValue query) (fst e))"
    unfolding 4 using that by (simp add: filtered_view_fresh)
  have 12: "fst (filteringBatchIter_Next ?it i) = False
        \<and> fst (consume_all ?it i) = []
        \<and> Callback (recording record_all_callback) query batch (i, got, log')
            = (True, i, got, log' @ [(query, ?fb)])"
    if a: "\<forall>e\<in>set batch. seenRange i (HashValue query) (fst e)"
  proof -
    have s: "\<forall>e\<in>set batch. seenRange i (HashValue (fi_query ?it)) (fst e)"
      using a by (simp add: q)
    show ?thesis
      by (simp add: filteringBatchIter_Next_all_seen[OF r s] consume_all_all_seen[OF r s]
          Callback_def recording_def record_all_callback_def)
  qed
  show ?thesis
    using it 1 2 3 4 5 6 7 8 9 10 11 12 by (intro conjI impI) blast+
qed

theorem Callback_invokes_downstream_once_witness:
  "seenRange (snd (isSeen NewIndexDeduper ''h1'' ''r1'')) ''h1'' (fst (''r1'', ''v1''))
   \<and> seenRange (snd (isSeen NewIndexDeduper ''h1'' ''r1'')) ''h1'' (fst (''r1'', ''v2''))
   \<and> fst (consume_all
            (filteringBatch_Iterator
               \<lparr>fb_query = \<lparr>TableName = ''t'', HashValue = ''h1''\<rparr>,
                fb_ReadBatch = [(''r1'', ''v1''), (''r1'', ''v2'')]\<rparr>)
            (snd (isSeen NewIndexDeduper ''h1'' ''r1''))) = []
   \<and> Callback (recording record_all_callback) \<lparr>TableName = ''t'', HashValue = ''h1''\<rparr>
        [(''r1'', ''v1''), (''r1'', ''v2'')] (snd (isSeen NewIndexDeduper ''h1'' ''r1''), [], [])
      = (True, snd (isSeen NewIndexDeduper ''h1'' ''r1''), [],
         [(\<lparr>TableName = ''t'', HashValue = ''h1''\<rparr>,
           \<lparr>fb_query = \<lparr>TableName = ''t'', HashValue = ''h1''\<rparr>,
            fb_ReadBatch = [(''r1'', ''v1''), (''r1'', ''v2'')]\<rparr>)])
   \<and> fst (consume_all
            (filteringBatch_Iterator
               \<lparr>fb_query = \<lparr>TableName = ''t'', HashValue = ''h1''\<rparr>,
                fb_ReadBatch = [(''r1'', ''v1''), (''r2'', ''v2''), (''r1'', ''v3'')]\<rparr>)
            NewIndexDeduper)
      = [(''r1'', ''v1''), (''r2'', ''v2'')]
   \<and> fst (consume_all
            (filteringBatch_Iterator
               \<lparr>fb_query = \<lparr>TableName = ''t'', HashValue = ''h1''\<rparr>,
                fb_ReadBatch = [(''r1'', ''v1''), (''r2'', ''v2'')]\<rparr>)
            NewIndexDeduper)
      = [(''r1'', ''v1''), (''r2'', ''v2'')]
   \<and> fst (snd (snd (Callback (recording record_all_callback) \<lparr>TableName = ''t'', HashValue = ''h1''\<rparr>
        [(''r1'', ''v1''), (''r2'', ''v2''), (''r1'', ''v3'')] (NewIndexDeduper, [], []))))
      = [(\<lparr>TableName = ''t'', HashValue = ''h1''\<rparr>, (''r1'', ''v1'')),
         (\<lparr>TableName = ''t'', HashValue = ''h1''\<rparr>, (''r2'', ''v2''))]
   \<and> filteringBatchIter_Next
        (filteringBatch_Iterator
           \<lparr>fb_query = \<lparr>TableName = ''t'', HashValue = ''h1''\<rparr>,
            fb_ReadBatch = [(''r1'', ''v1''), (''r2'', ''v2''), (''r1'', ''v3'')]\<rparr>)
        (snd (isSeen NewIndexDeduper ''h1'' ''r1''))
      = (True,
         \<lparr>fi_query = \<lparr>TableName = ''t'', HashValue = ''h1''\<rparr>,
          fi_ReadBatchIterator = \<lparr>remaining = [(''r1'', ''v3'')], current = Some (''r2'', ''v2'')\<rparr>\<rparr>,
         snd (isSeen (snd (isSeen NewIndexDeduper ''h1'' ''r1'')) ''h1'' ''r2''))"
proof -
  let ?i = "snd (isSeen NewIndexDeduper ''h1'' ''r1'')"
  let ?q = "\<lparr>TableName = ''t'', HashValue = ''h1''\<rparr>"
  have h: "\<forall>e\<in>set [(''r1'', ''v1''), (''r1'', ''v2'')]. seenRange ?i (HashValue ?q) (fst e)"
    by (simp add: isSeen_def isSeen_RLocked_def isSeen_Locked_def seenRange_def NewIndexDeduper_def)
  note T = Callback_invokes_downstream_once[where query = ?q
      and batch = "[(''r1'', ''v1''), (''r1'', ''v2'')]" and i = ?i and got = "[]" and log' = "[]"]
  note T12 = T[THEN conjunct2, THEN conjunct2, THEN conjunct2, THEN conjunct2, THEN conjunct2,
      THEN conjunct2, THEN conjunct2, THEN conjunct2, THEN conjunct2, THEN conjunct2,
      THEN conjunct2, THEN conjunct2, THEN mp, OF h]
  have a: "seenRange ?i ''h1'' (fst (''r1'', ''v1'')) \<and> seenRange ?i ''h1'' (fst (''r1'', ''v2''))"
    using h by simp
  have nw: "\<not> seenRange NewIndexDeduper h r" for h r
    by (simp add: seenRange_def NewIndexDeduper_def)
  note U = Callback_invokes_downstream_once[where query = ?q
      and batch = "[(''r1'', ''v1''), (''r2'', ''v2''), (''r1'', ''v3'')]"
      and i = NewIndexDeduper and got = "[]" and log' = "[]"]
  have b: "fst (consume_all (filteringBatch_Iterator
               \<lparr>fb_query = ?q, fb_ReadBatch = [(''r1'', ''v1''), (''r2'', ''v2''), (''r1'', ''v3'')]\<rparr>)
            NewIndexDeduper) = [(''r1'', ''v1''), (''r2'', ''v2'')]"
    using U[THEN conjunct2, THEN conjunct2, THEN conjunct2, THEN conjunct2, THEN conjunct1]
    by (simp add: nw)
  have f: "distinct (map fst [(''r1'', ''v1''), (''r2'', ''v2'')])
      \<and> (\<forall>e\<in>set [(''r1'', ''v1''), (''r2'', ''v2'')]. \<not> seenRange NewIndexDeduper (HashValue ?q) (fst e))"
    by (simp add: nw)
  note V = Callback_invokes_downstream_once[where query = ?q
      and batch = "[(''r1'', ''v1''), (''r2'', ''v2'')]" and i = NewIndexDeduper,
      THEN conjunct2, THEN conjunct2, THEN conjunct2, THEN conjunct2, THEN conjunct2,
      THEN conjunct2, THEN conjunct2, THEN conjunct2, THEN conjunct2, THEN conjunct2,
      THEN conjunct2, THEN conjunct1, THEN mp, OF f]
  have c: "fst (snd (snd (Callback (recording record_all_callback) ?q
        [(''r1'', ''v1''), (''r2'', ''v2''), (''r1'', ''v3'')] (NewIndexDeduper, [], []))))
      = [(?q, (''r1'', ''v1'')), (?q, (''r2'', ''v2''))]"
    using U[THEN conjunct2, THEN conjunct2, THEN conjunct2, THEN conjunct2, THEN conjunct2,
      THEN conjunct2, THEN conjunct2, THEN conjunct2, THEN conjunct2, THEN conjunct2,
      THEN conjunct1]
    by (simp add: nw)
  note W = Callback_invokes_downstream_once[where query = ?q
      and batch = "[(''r1'', ''v1''), (''r2'', ''v2''), (''r1'', ''v3'')]" and i = ?i,
      THEN conjunct2, THEN conjunct2, THEN conjunct2, THEN conjunct1]
  have sr: "seenRange ?i ''h1'' ''r1''" "\<not> seenRange ?i ''h1'' ''r2''"
    by (simp_all add: isSeen_def isSeen_RLocked_def isSeen_Locked_def seenRange_def NewIndexDeduper_def)
  have d: "filteringBatchIter_Next
        (filteringBatch_Iterator
           \<lparr>fb_query = ?q, fb_ReadBatch = [(''r1'', ''v1''), (''r2'', ''v2''), (''r1'', ''v3'')]\<rparr>) ?i
      = (True,
         \<lparr>fi_query = ?q,
          fi_ReadBatchIterator = \<lparr>remaining = [(''r1'', ''v3'')], current = Some (''r2'', ''v2'')\<rparr>\<rparr>,
         snd (isSeen ?i ''h1'' ''r2''))"
    unfolding W using sr by simp
  from a T12 b V c d show ?thesis by simp
qed

subsection \<open>Whole executions\<close>

lemma spawn_fields [simp]:
  "todo (spawn run) = page_entries (fst run)" "locking (spawn run) = False"
  "outcome (spawn run) = snd run" "reported (spawn run) = False"
  by (simp_all add: spawn_def)

lemma exec_init_fields [simp]:
  "deduper (exec_init d ws) = d" "workers (exec_init d ws) = ws" "recv_i (exec_init d ws) = 0"
  "q_lastErr (exec_init d ws) = None" "received (exec_init d ws) = []"
  "delivered (exec_init d ws) = []" "senders (exec_init d ws) = []"
  by (simp_all add: exec_init_def)

lemma seenRange_New [simp]: "\<not> seenRange NewIndexDeduper h r"
  by (simp add: seenRange_def NewIndexDeduper_def)

lemma filter_reported_spawn [simp]: "filter reported (map spawn runs) = []"
  by (induction runs) simp_all

lemma exec_run_recv:
  assumes "q_lastErr s = last_error (received s)
       \<and> recv_i s = maxQueriesPerGoroutine * length (received s)
       \<and> mset (received s) = mset (map outcome (filter reported (workers s)))"
  shows "q_lastErr (exec_run n sched s) = last_error (received (exec_run n sched s))
       \<and> recv_i (exec_run n sched s) = maxQueriesPerGoroutine * length (received (exec_run n sched s))
       \<and> mset (received (exec_run n sched s))
           = mset (map outcome (filter reported (workers (exec_run n sched s))))"
  using assms
  by (rule exec_run_invariant[where P = "\<lambda>s. q_lastErr s = last_error (received s)
       \<and> recv_i s = maxQueriesPerGoroutine * length (received s)
       \<and> mset (received s) = mset (map outcome (filter reported (workers s)))"])
     (simp add: worker_step_recv)

lemma exec_run_count:
  assumes "recv_i s = maxQueriesPerGoroutine * length (filter reported (workers s))"
  shows "recv_i (exec_run n sched s)
           = maxQueriesPerGoroutine * length (filter reported (workers (exec_run n sched s)))
       \<and> length (workers (exec_run n sched s)) = length (workers s)"
proof (rule exec_run_invariant[where P = "\<lambda>s'. recv_i s' = maxQueriesPerGoroutine * length (filter reported (workers s'))
       \<and> length (workers s') = length (workers s)"], goal_cases)
  case 1
  with assms show ?case by simp
next
  case (2 s' w)
  with worker_step_count[of s' n w] show ?case by simp
qed

lemma exec_run_outcomes:
  "map outcome (workers (exec_run n sched s)) = map outcome (workers s)"
  by (rule exec_run_invariant[where P = "\<lambda>s'. map outcome (workers s') = map outcome (workers s)"])
     (simp_all add: worker_step_outcomes)

lemma exec_run_reported_done:
  assumes "\<forall>k<length (workers s). reported (workers s ! k) \<longrightarrow> todo (workers s ! k) = []"
  shows "\<forall>k<length (workers (exec_run n sched s)).
           reported (workers (exec_run n sched s) ! k) \<longrightarrow> todo (workers (exec_run n sched s) ! k) = []"
  using assms
  by (rule exec_run_invariant[where P = "\<lambda>s. \<forall>k<length (workers s).
         reported (workers s ! k) \<longrightarrow> todo (workers s ! k) = []"])
     (rule worker_step_reported_done)

lemma exec_run_pending:
  assumes "{(h, r). seenRange (deduper s) h r}
             \<union> (\<Union>k<length (workers s). pairOf ` set (todo (workers s ! k))) = T"
  shows "{(h, r). seenRange (deduper (exec_run n sched s)) h r}
             \<union> (\<Union>k<length (workers (exec_run n sched s)).
                   pairOf ` set (todo (workers (exec_run n sched s) ! k))) = T"
  using assms
  by (rule exec_run_invariant[where P = "\<lambda>s. {(h, r). seenRange (deduper s) h r}
             \<union> (\<Union>k<length (workers s). pairOf ` set (todo (workers s ! k))) = T"])
     (rule worker_step_pending)

lemma prefix_worker_step: "prefix (delivered s) (delivered (worker_step n w s))"
  by (rule worker_step_cases[of n w s]) simp_all

lemma prefix_exec_run: "prefix (delivered s) (delivered (exec_run n sched s))"
proof (induction sched arbitrary: s)
  case Nil
  show ?case by simp
next
  case (Cons w sched)
  have "prefix (delivered s) (delivered (worker_step n w s))" by (rule prefix_worker_step)
  also have "prefix \<dots> (delivered (exec_run n sched (worker_step n w s)))" by (rule Cons.IH)
  finally show ?case by simp
qed

lemma seenRange_worker_step:
  "seenRange (deduper s) h r \<Longrightarrow> seenRange (deduper (worker_step n w s)) h r"
  by (rule worker_step_cases[of n w s]) (simp_all add: seenRange_Locked)

lemma seenRange_exec_run:
  "seenRange (deduper s) h r \<Longrightarrow> seenRange (deduper (exec_run n sched s)) h r"
  by (rule exec_run_invariant[where P = "\<lambda>s. seenRange (deduper s) h r"])
     (simp_all add: seenRange_worker_step)

lemma ceil_div_100_le: "n \<le> 100 * R \<Longrightarrow> ((n::nat) + 99) div 100 \<le> R"
proof -
  assume "n \<le> 100 * R"
  then have "(n + 99) div 100 \<le> (99 + R * 100) div 100"
    by (intro div_le_mono) simp
  also have "\<dots> = R" by (simp only: div_mult_self1)
  finally show ?thesis .
qed

lemma le_ceil_div_100: "(n::nat) \<le> 100 * ((n + 99) div 100)"
proof -
  have "n + 99 < 100 + 100 * ((n + 99) div 100)"
    by (rule dividend_less_times_div) simp
  then show ?thesis by simp
qed

lemma UN_nth_set: "(\<Union>k<length xs. f (xs ! k)) = (\<Union>x\<in>set xs. f x)"
proof -
  have "set xs = (\<lambda>k. xs ! k) ` {..<length xs}"
    by (auto simp: in_set_conv_nth)
  then show ?thesis by (simp add: image_image)
qed

lemma fan_out_completion:
  fixes runs :: "(('a IndexQuery_scheme \<times> ReadBatch) list \<times> 'e option) list"
  assumes s: "s = exec_run n sched (exec_init NewIndexDeduper (map spawn runs))"
    and len: "length runs = (n + 99) div 100"
    and fin: "\<not> recv_i s < n"
  shows "q_lastErr s = last_error (received s)"
    and "mset (received s) = mset (map snd runs)"
    and "distinct (map pairOf (delivered s))"
    and "set (map pairOf (delivered s)) = (\<Union>run\<in>set runs. pairOf ` set (page_entries (fst run)))"
proof -
  let ?init = "exec_init NewIndexDeduper (map spawn runs) :: ('a, 'e) exec_state"
  have r: "q_lastErr s = last_error (received s)
       \<and> recv_i s = maxQueriesPerGoroutine * length (received s)
       \<and> mset (received s) = mset (map outcome (filter reported (workers s)))"
    unfolding s by (rule exec_run_recv) (simp add: last_error_def)
  have c: "recv_i s = maxQueriesPerGoroutine * length (filter reported (workers s))
       \<and> length (workers s) = length (workers ?init)"
    unfolding s by (rule exec_run_count) simp
  have o: "map outcome (workers s) = map snd runs"
    unfolding s exec_run_outcomes by (simp add: comp_def)
  have rd: "\<forall>k<length (workers s). reported (workers s ! k) \<longrightarrow> todo (workers s ! k) = []"
    unfolding s by (rule exec_run_reported_done) simp
  have "{(h, r). seenRange (deduper ?init) h r}
             \<union> (\<Union>k<length (workers ?init). pairOf ` set (todo (workers ?init ! k)))
        = (\<Union>run\<in>set runs. pairOf ` set (page_entries (fst run)))"
    by (simp add: UN_nth_set[where f = "\<lambda>run. pairOf ` set (page_entries (fst run))" and xs = runs])
  then have p: "{(h, r). seenRange (deduper s) h r}
             \<union> (\<Union>k<length (workers s). pairOf ` set (todo (workers s ! k)))
        = (\<Union>run\<in>set runs. pairOf ` set (page_entries (fst run)))"
    unfolding s by (rule exec_run_pending)
  have d: "distinct (map pairOf (delivered s))
       \<and> set (map pairOf (delivered s)) = {(h, r). seenRange (deduper s) h r}"
    unfolding s by (rule exec_run_dedup)
  from fin c have "n \<le> 100 * length (filter reported (workers s))"
    by (simp add: maxQueriesPerGoroutine_def)
  then have "(n + 99) div 100 \<le> length (filter reported (workers s))"
    by (rule ceil_div_100_le)
  with c len have "length (workers s) \<le> length (filter reported (workers s))" by simp
  then have all: "filter reported (workers s) = workers s" by (rule all_reported)
  then have "\<forall>x\<in>set (workers s). reported x" by (simp add: filter_id_conv)
  with rd have "\<forall>k<length (workers s). todo (workers s ! k) = []" by simp
  then have "(\<Union>k<length (workers s). pairOf ` set (todo (workers s ! k))) = {}" by simp
  with p have t: "{(h, r). seenRange (deduper s) h r}
      = (\<Union>run\<in>set runs. pairOf ` set (page_entries (fst run)))" by simp
  show "q_lastErr s = last_error (received s)" using r by simp
  show "mset (received s) = mset (map snd runs)" using r all o by simp
  show "distinct (map pairOf (delivered s))" using d by simp
  show "set (map pairOf (delivered s)) = (\<Union>run\<in>set runs. pairOf ` set (page_entries (fst run)))"
    using d t by simp
qed

lemma fan_out_extends:
  fixes runs :: "(('a IndexQuery_scheme \<times> ReadBatch) list \<times> 'e option) list"
  assumes len: "length runs = (n + 99) div 100"
  shows "\<exists>sched'. \<not> recv_i (exec_run n (sched @ sched')
                         (exec_init NewIndexDeduper (map spawn runs) :: ('a, 'e) exec_state)) < n"
proof -
  let ?init = "exec_init NewIndexDeduper (map spawn runs) :: ('a, 'e) exec_state"
  let ?s = "exec_run n sched ?init"
  have c: "recv_i ?s = maxQueriesPerGoroutine * length (filter reported (workers ?s))
       \<and> length (workers ?s) = length (workers ?init)"
    by (rule exec_run_count) simp
  have "n \<le> maxQueriesPerGoroutine * length (workers ?s)"
    using c len le_ceil_div_100[of n] by (simp add: maxQueriesPerGoroutine_def)
  with c obtain sched' where "\<not> recv_i (exec_run n sched' ?s) < n"
    using exec_completes[of ?s n] by blast
  then show ?thesis by (auto simp: exec_run_append)
qed

lemma DoParallelQueries_empty:
  "DoParallelQueries tq [] sched
     = Some \<lparr>returned = None, calls = [], sent = [], arrivals = []\<rparr>"
  by (simp add: DoParallelQueries_def)

lemma DoParallelQueries_sync:
  assumes "0 < length queries" "length queries \<le> 100"
  shows "DoParallelQueries tq queries sched
     = (case MultiQueries_pages (fst (tq queries)) (Callback record_all_callback) (NewIndexDeduper, []) of
          (id', got) \<Rightarrow> Some \<lparr>returned = snd (tq queries), calls = [queries], sent = got,
                               arrivals = [0]\<rparr>)"
  using assms by (simp add: DoParallelQueries_def maxQueriesPerGoroutine_def Let_def split: prod.splits)

lemma DoParallelQueries_fan_out:
  assumes "100 < length queries"
  shows "DoParallelQueries tq queries sched
     = (if recv_i (exec_run (length queries) sched
                     (exec_init NewIndexDeduper (map spawn (map tq (dispatch_loop 0 queries)))))
             < length queries
        then None
        else Some \<lparr>returned = q_lastErr (exec_run (length queries) sched
                     (exec_init NewIndexDeduper (map spawn (map tq (dispatch_loop 0 queries))))),
                   calls = dispatch_loop 0 queries,
                   sent = delivered (exec_run (length queries) sched
                     (exec_init NewIndexDeduper (map spawn (map tq (dispatch_loop 0 queries))))),
                   arrivals = senders (exec_run (length queries) sched
                     (exec_init NewIndexDeduper (map spawn (map tq (dispatch_loop 0 queries)))))\<rparr>)"
proof -
  from assms have "length queries \<noteq> 0" "\<not> length queries \<le> maxQueriesPerGoroutine"
    by (auto simp: maxQueriesPerGoroutine_def)
  then show ?thesis
    unfolding DoParallelQueries_def Let_def by (simp add: comp_def)
qed

lemma dispatch_loop_replicate_101:
  "dispatch_loop 0 (replicate 101 q) = [replicate 100 q, [q]]"
proof -
  have a: "dispatch_loop 0 (replicate 101 q)
      = take (min 100 (length (replicate 101 q) - 0)) (drop 0 (replicate 101 q))
        # dispatch_loop (0 + 100) (replicate 101 q)"
    by (rule dispatch_loop_more) simp
  have b: "dispatch_loop (0 + 100) (replicate 101 q)
      = take (min 100 (length (replicate 101 q) - (0 + 100))) (drop (0 + 100) (replicate 101 q))
        # dispatch_loop (0 + 100 + 100) (replicate 101 q)"
    by (rule dispatch_loop_more) simp
  have c: "dispatch_loop (0 + 100 + 100) (replicate 101 q) = []"
    by (rule dispatch_loop_done) simp
  show ?thesis unfolding a b c by simp
qed

lemma example_fan_out:
  "DoParallelQueries
     (\<lambda>g. if length g = 100
          then ([(\<lparr>TableName = ''t'', HashValue = ''h1''\<rparr>, [(''r1'', ''v1'')])], Some ''boom'')
          else ([(\<lparr>TableName = ''t'', HashValue = ''h1''\<rparr>, [(''r1'', ''v1'')])], None))
     (replicate 101 \<lparr>TableName = ''t'', HashValue = ''h1''\<rparr>)
     [0, 1, 0, 1, 1, 0]
   = Some \<lparr>returned = Some ''boom'',
            calls = [replicate 100 \<lparr>TableName = ''t'', HashValue = ''h1''\<rparr>,
                     [\<lparr>TableName = ''t'', HashValue = ''h1''\<rparr>]],
            sent = [(\<lparr>TableName = ''t'', HashValue = ''h1''\<rparr>, (''r1'', ''v1''))],
            arrivals = [1, 0]\<rparr>"
  by (simp add: DoParallelQueries_fan_out dispatch_loop_replicate_101 worker_step_def Let_def
      isSeen_RLocked_def isSeen_Locked_def seenRange_def NewIndexDeduper_def
      maxQueriesPerGoroutine_def exec_init_def spawn_def page_entries_def)

lemma example_sync:
  "DoParallelQueries
     (\<lambda>g. ([(\<lparr>TableName = ''t'', HashValue = ''h1''\<rparr>, [(''r1'', ''v1''), (''r1'', ''v1''), (''r2'', ''v2'')]),
            (\<lparr>TableName = ''t'', HashValue = ''h1''\<rparr>, [(''r1'', ''v1'')])], None :: string option))
     [\<lparr>TableName = ''t'', HashValue = ''h1''\<rparr>]
     []
   = Some \<lparr>returned = None,
            calls = [[\<lparr>TableName = ''t'', HashValue = ''h1''\<rparr>]],
            sent = [(\<lparr>TableName = ''t'', HashValue = ''h1''\<rparr>, (''r1'', ''v1'')),
                    (\<lparr>TableName = ''t'', HashValue = ''h1''\<rparr>, (''r2'', ''v2''))],
            arrivals = [0]\<rparr>"
  by (simp add: DoParallelQueries_sync MultiQueries_pages_def Callback_def record_all_callback_def
      filteringBatch_Iterator_def ReadBatch_Iterator_def consume_all_Cons consume_all_Nil
      isSeen_Locked_def seenRange_def NewIndexDeduper_def)


lemma DoParallelQueries_sent_distinct:
  assumes "DoParallelQueries tq queries sched = Some res"
  shows "distinct (map pairOf (sent res))
       \<and> set (map pairOf (sent res)) = (\<Union>g\<in>set (calls res). pairOf ` set (page_entries (fst (tq g))))"
proof (cases "length queries = 0")
  case True
  with assms show ?thesis by (auto simp: DoParallelQueries_empty)
next
  case False
  show ?thesis
  proof (cases "length queries \<le> 100")
    case True
    obtain id' got where m: "MultiQueries_pages (fst (tq queries)) (Callback record_all_callback)
        (NewIndexDeduper, []) = (id', got)"
      by (cases "MultiQueries_pages (fst (tq queries)) (Callback record_all_callback)
        (NewIndexDeduper, ([] :: ('a IndexQuery_scheme \<times> Entry) list))")
    have res: "res = \<lparr>returned = snd (tq queries), calls = [queries], sent = got,
                      arrivals = [0]\<rparr>"
      using assms False True by (simp add: DoParallelQueries_sync m)
    have d0: "distinct (map pairOf ([] :: ('a IndexQuery_scheme \<times> Entry) list))" by simp
    have e0: "set (map pairOf ([] :: ('a IndexQuery_scheme \<times> Entry) list))
        = {(h, r). seenRange NewIndexDeduper h r}" by simp
    note sp = MultiQueries_pages_spec[OF m d0 e0]
    from sp have "distinct (map pairOf got)
        \<and> set (map pairOf got) = pairOf ` set (page_entries (fst (tq queries)))"
      by simp
    then show ?thesis unfolding res by simp
  next
    case F: False
    then have big: "100 < length queries" by simp
    let ?s = "exec_run (length queries) sched
                (exec_init NewIndexDeduper (map spawn (map tq (dispatch_loop 0 queries))))"
    from assms have fin: "\<not> recv_i ?s < length queries"
      and res: "res = \<lparr>returned = q_lastErr ?s, calls = dispatch_loop 0 queries,
                       sent = delivered ?s, arrivals = senders ?s\<rparr>"
      by (simp_all add: DoParallelQueries_fan_out[OF big] split: if_splits)
    have len: "length (map tq (dispatch_loop 0 queries)) = (length queries + 99) div 100"
      by (simp add: length_dispatch_loop)
    from fan_out_completion(3,4)[OF refl len fin]
    show ?thesis unfolding res by simp
  qed
qed

text \<open>
  C1. Within one table-scoped execution a (hash value, range value) pair is allowed
  through at most once: in every state that any number of workers, interleaved in
  any way at the granularity of \<open>isSeen\<close>'s critical sections, reach from a new
  deduper, the entries delivered downstream have pairwise different pairs, and so
  have the entries sent by every \<open>DoParallelQueries\<close> call. A pair that \<open>isSeen\<close> has
  recorded stays recorded whatever the workers do next, \<open>isSeen\<close> answers \<open>true\<close> for
  it without changing the deduper, and the filtering iterator never stops on an
  entry whose pair was recorded before the \<open>Next()\<close> call.
\<close>

theorem dedup_at_most_once:
  "distinct (map pairOf (delivered (exec_run n sched (exec_init NewIndexDeduper ws))))
   \<and> (DoParallelQueries tq queries sched' = Some res \<longrightarrow> distinct (map pairOf (sent res)))
   \<and> seenRange (snd (isSeen i h r)) h r
   \<and> (seenRange (deduper s) h r \<longrightarrow> seenRange (deduper (exec_run n' sched'' s)) h r)
   \<and> (seenRange i h r \<longrightarrow>
        isSeen i h r = (True, i) \<and> isSeen_RLocked i h r \<and> isSeen_Locked i h r = (True, i))
   \<and> (filteringBatchIter_Next it i = (True, it', i') \<longrightarrow>
        \<not> seenRange i (HashValue (fi_query it)) (RangeValue (fi_ReadBatchIterator it')))"
proof -
  have 1: "distinct (map pairOf (delivered (exec_run n sched (exec_init NewIndexDeduper ws))))"
    using exec_run_dedup[of n sched ws] by simp
  have 2: "DoParallelQueries tq queries sched' = Some res \<Longrightarrow> distinct (map pairOf (sent res))"
    using DoParallelQueries_sent_distinct[of tq queries sched' res] by simp
  have 3: "seenRange (snd (isSeen i h r)) h r"
    by (simp add: isSeen_eq_Locked seenRange_Locked)
  have 4: "seenRange (deduper s) h r \<Longrightarrow> seenRange (deduper (exec_run n' sched'' s)) h r"
    by (rule seenRange_exec_run)
  have 5: "seenRange i h r \<Longrightarrow>
        isSeen i h r = (True, i) \<and> isSeen_RLocked i h r \<and> isSeen_Locked i h r = (True, i)"
    by (simp add: isSeen_def isSeen_RLocked_def isSeen_Locked_def)
  have 6: "filteringBatchIter_Next it i = (True, it', i') \<Longrightarrow>
        \<not> seenRange i (HashValue (fi_query it)) (RangeValue (fi_ReadBatchIterator it'))"
    using filteringBatchIter_Next_fresh[of it i it' i'] by simp
  from 1 2 3 4 5 6 show ?thesis by blast
qed

theorem dedup_at_most_once_witness:
  "map_option sent
     (DoParallelQueries
        (\<lambda>g. if length g = 100
             then ([(\<lparr>TableName = ''t'', HashValue = ''h1''\<rparr>, [(''r1'', ''v1'')])], Some ''boom'')
             else ([(\<lparr>TableName = ''t'', HashValue = ''h1''\<rparr>, [(''r1'', ''v1'')])], None))
        (replicate 101 \<lparr>TableName = ''t'', HashValue = ''h1''\<rparr>)
        [0, 1, 0, 1, 1, 0])
     = Some [(\<lparr>TableName = ''t'', HashValue = ''h1''\<rparr>, (''r1'', ''v1''))]
   \<and> distinct (map pairOf [(\<lparr>TableName = ''t'', HashValue = ''h1''\<rparr>, (''r1'', ''v1''))])
   \<and> seenRange (snd (isSeen NewIndexDeduper ''h1'' ''r1'')) ''h1'' ''r1''
   \<and> isSeen (snd (isSeen NewIndexDeduper ''h1'' ''r1'')) ''h1'' ''r1''
       = (True, snd (isSeen NewIndexDeduper ''h1'' ''r1''))"
proof -
  note T = dedup_at_most_once[where tq = "\<lambda>g. if length g = 100
             then ([(\<lparr>TableName = ''t'', HashValue = ''h1''\<rparr>, [(''r1'', ''v1'')])], Some ''boom'')
             else ([(\<lparr>TableName = ''t'', HashValue = ''h1''\<rparr>, [(''r1'', ''v1'')])], None)"
      and queries = "replicate 101 \<lparr>TableName = ''t'', HashValue = ''h1''\<rparr>"
      and sched' = "[0, 1, 0, 1, 1, 0]"
      and i = "snd (isSeen NewIndexDeduper ''h1'' ''r1'')" and h = "''h1''" and r = "''r1''"]
  have d: "distinct (map pairOf [(\<lparr>TableName = ''t'', HashValue = ''h1''\<rparr>, (''r1'', ''v1''))])"
    using T[THEN conjunct2, THEN conjunct1, THEN mp, OF example_fan_out] by simp
  have s: "seenRange (snd (isSeen NewIndexDeduper ''h1'' ''r1'')) ''h1'' ''r1''"
    by (simp add: isSeen_def isSeen_RLocked_def isSeen_Locked_def seenRange_def NewIndexDeduper_def)
  have e: "isSeen (snd (isSeen NewIndexDeduper ''h1'' ''r1'')) ''h1'' ''r1''
       = (True, snd (isSeen NewIndexDeduper ''h1'' ''r1''))"
    using T[THEN conjunct2, THEN conjunct2, THEN conjunct2, THEN conjunct2, THEN conjunct1,
            THEN mp, OF s]
    by (rule conjunct1)
  have x: "map_option sent
     (DoParallelQueries
        (\<lambda>g. if length g = 100
             then ([(\<lparr>TableName = ''t'', HashValue = ''h1''\<rparr>, [(''r1'', ''v1'')])], Some ''boom'')
             else ([(\<lparr>TableName = ''t'', HashValue = ''h1''\<rparr>, [(''r1'', ''v1'')])], None))
        (replicate 101 \<lparr>TableName = ''t'', HashValue = ''h1''\<rparr>)
        [0, 1, 0, 1, 1, 0])
     = Some [(\<lparr>TableName = ''t'', HashValue = ''h1''\<rparr>, (''r1'', ''v1''))]"
    by (subst example_fan_out) simp
  show ?thesis using x d s e by (intro conjI)
qed

lemma DoParallelQueries_returned:
  assumes "DoParallelQueries tq queries sched = Some res"
  shows "\<exists>arrival. mset arrival = mset (map (\<lambda>g. snd (tq g)) (calls res))
           \<and> returned res = last_error arrival"
proof (cases "length queries = 0")
  case True
  with assms have "returned res = None" "calls res = []"
    by (auto simp: DoParallelQueries_empty)
  then have "mset [] = mset (map (\<lambda>g. snd (tq g)) (calls res)) \<and> returned res = last_error []"
    by (simp add: last_error_def)
  then show ?thesis by blast
next
  case False
  show ?thesis
  proof (cases "length queries \<le> 100")
    case True
    from assms False True have "returned res = snd (tq queries)" "calls res = [queries]"
      by (auto simp: DoParallelQueries_sync split: prod.splits)
    then have "mset [snd (tq queries)] = mset (map (\<lambda>g. snd (tq g)) (calls res))
        \<and> returned res = last_error [snd (tq queries)]"
      by (simp add: last_error_def)
    then show ?thesis by blast
  next
    case F: False
    then have big: "100 < length queries" by simp
    let ?s = "exec_run (length queries) sched
                (exec_init NewIndexDeduper (map spawn (map tq (dispatch_loop 0 queries))))"
    from assms have fin: "\<not> recv_i ?s < length queries"
      and res: "res = \<lparr>returned = q_lastErr ?s, calls = dispatch_loop 0 queries,
                       sent = delivered ?s, arrivals = senders ?s\<rparr>"
      by (simp_all add: DoParallelQueries_fan_out[OF big] split: if_splits)
    have len: "length (map tq (dispatch_loop 0 queries)) = (length queries + 99) div 100"
      by (simp add: length_dispatch_loop)
    from fan_out_completion(1,2)[OF refl len fin]
    have "mset (received ?s) = mset (map (\<lambda>g. snd (tq g)) (calls res))
        \<and> returned res = last_error (received ?s)"
      unfolding res by (simp add: comp_def)
    then show ?thesis by blast
  qed
qed

lemma DoParallelQueries_extends:
  "\<exists>sched'. DoParallelQueries tq queries (sched @ sched') \<noteq> None"
proof (cases "length queries = 0")
  case True
  then show ?thesis by (simp add: DoParallelQueries_empty)
next
  case False
  show ?thesis
  proof (cases "length queries \<le> 100")
    case True
    with False show ?thesis by (simp add: DoParallelQueries_sync split: prod.splits)
  next
    case F: False
    then have big: "100 < length queries" by simp
    have len: "length (map tq (dispatch_loop 0 queries)) = (length queries + 99) div 100"
      by (simp add: length_dispatch_loop)
    from fan_out_extends[OF len, of sched]
    show ?thesis by (simp add: DoParallelQueries_fan_out[OF big])
  qed
qed

subsection \<open>The order of arrival\<close>

lemma worker_step_send:
  "senders (worker_step n w s)
     = (if w < length (workers s) \<and> \<not> reported (workers s ! w) \<and> todo (workers s ! w) = []
           \<and> recv_i s < n
        then senders s @ [w] else senders s)
   \<and> received (worker_step n w s)
     = (if w < length (workers s) \<and> \<not> reported (workers s ! w) \<and> todo (workers s ! w) = []
           \<and> recv_i s < n
        then received s @ [outcome (workers s ! w)] else received s)
   \<and> q_lastErr (worker_step n w s)
     = (if w < length (workers s) \<and> \<not> reported (workers s ! w) \<and> todo (workers s ! w) = []
           \<and> recv_i s < n \<and> outcome (workers s ! w) \<noteq> None
        then outcome (workers s ! w) else q_lastErr s)"
  by (simp add: worker_step_def Let_def split: list.splits prod.splits)

lemma outcome_nth_update:
  "w < length ws \<Longrightarrow> outcome wk = outcome (ws ! w) \<Longrightarrow> outcome (ws[w := wk] ! k) = outcome (ws ! k)"
  by (cases "k = w") simp_all

lemma reported_set_update:
  assumes "w < length ws"
  shows "{k. k < length ws \<and> reported (ws[w := wk] ! k)}
       = (if reported wk then insert w {k. k < length ws \<and> reported (ws ! k)}
          else {k. k < length ws \<and> reported (ws ! k)} - {w})"
  using assms by (auto simp: nth_list_update)

lemma worker_step_arrival:
  assumes "received s = map (\<lambda>k. outcome (workers s ! k)) (senders s)"
    and "distinct (senders s)"
    and "set (senders s) = {k. k < length (workers s) \<and> reported (workers s ! k)}"
  shows "received (worker_step n w s)
           = map (\<lambda>k. outcome (workers (worker_step n w s) ! k)) (senders (worker_step n w s))
       \<and> distinct (senders (worker_step n w s))
       \<and> set (senders (worker_step n w s))
           = {k. k < length (workers (worker_step n w s)) \<and> reported (workers (worker_step n w s) ! k)}"
proof (rule worker_step_cases[of n w s], goal_cases)
  case 1
  with assms show ?case by simp
next
  case (2 wk)
  then have nin: "w \<notin> set (senders s)" using assms(3) by simp
  from 2 assms nin show ?case
    by (simp add: outcome_nth_update reported_set_update)
next
  case (3 wk q e rest)
  then have "{k. k < length (workers s) \<and> reported (workers s ! k)} - {w}
      = {k. k < length (workers s) \<and> reported (workers s ! k)}" by auto
  with 3 assms show ?case
    by (simp add: outcome_nth_update reported_set_update)
next
  case (4 wk q e rest)
  then have "{k. k < length (workers s) \<and> reported (workers s ! k)} - {w}
      = {k. k < length (workers s) \<and> reported (workers s ! k)}" by auto
  with 4 assms show ?case
    by (simp add: outcome_nth_update reported_set_update)
next
  case (5 wk q e rest)
  then have "{k. k < length (workers s) \<and> reported (workers s ! k)} - {w}
      = {k. k < length (workers s) \<and> reported (workers s ! k)}" by auto
  with 5 assms show ?case
    by (simp add: outcome_nth_update reported_set_update)
qed

lemma exec_run_arrival:
  assumes "received s = map (\<lambda>k. outcome (workers s ! k)) (senders s)
       \<and> distinct (senders s)
       \<and> set (senders s) = {k. k < length (workers s) \<and> reported (workers s ! k)}"
  shows "received (exec_run n sched s)
           = map (\<lambda>k. outcome (workers (exec_run n sched s) ! k)) (senders (exec_run n sched s))
       \<and> distinct (senders (exec_run n sched s))
       \<and> set (senders (exec_run n sched s))
           = {k. k < length (workers (exec_run n sched s))
                 \<and> reported (workers (exec_run n sched s) ! k)}"
  using assms
  by (rule exec_run_invariant[where P = "\<lambda>s. received s = map (\<lambda>k. outcome (workers s ! k)) (senders s)
       \<and> distinct (senders s)
       \<and> set (senders s) = {k. k < length (workers s) \<and> reported (workers s ! k)}"])
     (simp add: worker_step_arrival)

lemma senders_exec_run:
  "\<exists>xs. senders (exec_run n sched s) = senders s @ xs \<and> subseq xs sched"
proof (induction sched arbitrary: s)
  case Nil
  show ?case by simp
next
  case (Cons w sched)
  from Cons.IH[of "worker_step n w s"] obtain xs where
    x: "senders (exec_run n sched (worker_step n w s)) = senders (worker_step n w s) @ xs"
    and sub: "subseq xs sched" by blast
  show ?case
  proof (cases "senders (worker_step n w s) = senders s")
    case True
    with x have "senders (exec_run n (w # sched) s) = senders s @ xs" by simp
    moreover from sub have "subseq xs (w # sched)" by (rule list_emb_Cons)
    ultimately show ?thesis by blast
  next
    case False
    then have "senders (worker_step n w s) = senders s @ [w]"
      using worker_step_send[of n w s] by (simp split: if_splits)
    with x have "senders (exec_run n (w # sched) s) = senders s @ (w # xs)" by simp
    moreover from sub have "subseq (w # xs) (w # sched)" by simp
    ultimately show ?thesis by blast
  qed
qed

lemma fan_out_arrivals:
  fixes runs :: "(('a IndexQuery_scheme \<times> ReadBatch) list \<times> 'e option) list"
  assumes s: "s = exec_run n sched (exec_init NewIndexDeduper (map spawn runs))"
    and len: "length runs = (n + 99) div 100"
  shows "\<not> recv_i s < n \<longleftrightarrow> list_all reported (workers s)"
    and "received s = map (\<lambda>k. snd (runs ! k)) (senders s)"
    and "distinct (senders s)"
    and "set (senders s) = {k. k < length runs \<and> reported (workers s ! k)}"
    and "subseq (senders s) sched"
    and "q_lastErr s = last_error (received s)"
proof -
  let ?init = "exec_init NewIndexDeduper (map spawn runs) :: ('a, 'e) exec_state"
  have c: "recv_i s = maxQueriesPerGoroutine * length (filter reported (workers s))
       \<and> length (workers s) = length (workers ?init)"
    unfolding s by (rule exec_run_count) simp
  then have lw: "length (workers s) = length runs" by simp
  have o: "map outcome (workers s) = map snd runs"
    unfolding s exec_run_outcomes by (simp add: comp_def)
  have a: "received s = map (\<lambda>k. outcome (workers s ! k)) (senders s)
       \<and> distinct (senders s)
       \<and> set (senders s) = {k. k < length (workers s) \<and> reported (workers s ! k)}"
    unfolding s by (rule exec_run_arrival) simp
  have r: "q_lastErr s = last_error (received s)
       \<and> recv_i s = maxQueriesPerGoroutine * length (received s)
       \<and> mset (received s) = mset (map outcome (filter reported (workers s)))"
    unfolding s by (rule exec_run_recv) (simp add: last_error_def)
  show "\<not> recv_i s < n \<longleftrightarrow> list_all reported (workers s)"
  proof
    assume "\<not> recv_i s < n"
    with c have "n \<le> 100 * length (filter reported (workers s))"
      by (simp add: maxQueriesPerGoroutine_def)
    then have "(n + 99) div 100 \<le> length (filter reported (workers s))"
      by (rule ceil_div_100_le)
    with lw len have "length (workers s) \<le> length (filter reported (workers s))" by simp
    then have "filter reported (workers s) = workers s" by (rule all_reported)
    then show "list_all reported (workers s)" by (simp add: filter_id_conv list_all_iff)
  next
    assume "list_all reported (workers s)"
    then have "filter reported (workers s) = workers s" by (simp add: filter_id_conv list_all_iff)
    with c lw have "recv_i s = 100 * length runs" by (simp add: maxQueriesPerGoroutine_def)
    with len le_ceil_div_100[of n] show "\<not> recv_i s < n" by simp
  qed
  have "outcome (workers s ! k) = snd (runs ! k)" if "k \<in> set (senders s)" for k
  proof -
    from that a lw have k: "k < length runs" by simp
    with lw have "outcome (workers s ! k) = map outcome (workers s) ! k" by simp
    also have "\<dots> = snd (runs ! k)" unfolding o using k by simp
    finally show ?thesis .
  qed
  then have "map (\<lambda>k. outcome (workers s ! k)) (senders s) = map (\<lambda>k. snd (runs ! k)) (senders s)"
    by simp
  with a show "received s = map (\<lambda>k. snd (runs ! k)) (senders s)" by simp
  show "distinct (senders s)" using a by simp
  show "set (senders s) = {k. k < length runs \<and> reported (workers s ! k)}" using a lw by simp
  from senders_exec_run[of n sched ?init] show "subseq (senders s) sched"
    unfolding s by simp
  show "q_lastErr s = last_error (received s)" using r by simp
qed

subsection \<open>What is sent does not depend on the errors\<close>

lemma worker_step_sim:
  assumes "deduper s = deduper s'" "recv_i s = recv_i s'" "delivered s = delivered s'"
    and "senders s = senders s'"
    and "map (\<lambda>wk. (todo wk, locking wk, reported wk)) (workers s)
       = map (\<lambda>wk. (todo wk, locking wk, reported wk)) (workers s')"
  shows "deduper (worker_step n w s) = deduper (worker_step n w s')
       \<and> recv_i (worker_step n w s) = recv_i (worker_step n w s')
       \<and> delivered (worker_step n w s) = delivered (worker_step n w s')
       \<and> senders (worker_step n w s) = senders (worker_step n w s')
       \<and> map (\<lambda>wk. (todo wk, locking wk, reported wk)) (workers (worker_step n w s))
           = map (\<lambda>wk. (todo wk, locking wk, reported wk)) (workers (worker_step n w s'))"
proof -
  from assms(5) have l: "length (workers s) = length (workers s')"
    by (rule map_eq_imp_length_eq)
  show ?thesis
  proof (cases "w < length (workers s)")
    case False
    with l assms show ?thesis by (simp add: worker_step_def)
  next
    case True
    with l have w': "w < length (workers s')" by simp
    from assms(5) have "map (\<lambda>wk. (todo wk, locking wk, reported wk)) (workers s) ! w
       = map (\<lambda>wk. (todo wk, locking wk, reported wk)) (workers s') ! w" by simp
    with True w' have e: "todo (workers s ! w) = todo (workers s' ! w)"
      "locking (workers s ! w) = locking (workers s' ! w)"
      "reported (workers s ! w) = reported (workers s' ! w)"
      by simp_all
    from True w' e assms show ?thesis
      by (simp add: worker_step_def Let_def map_update split: list.split prod.split)
  qed
qed

lemma exec_run_sim:
  assumes "deduper s = deduper s'" "recv_i s = recv_i s'" "delivered s = delivered s'"
    and "senders s = senders s'"
    and "map (\<lambda>wk. (todo wk, locking wk, reported wk)) (workers s)
       = map (\<lambda>wk. (todo wk, locking wk, reported wk)) (workers s')"
  shows "recv_i (exec_run n sched s) = recv_i (exec_run n sched s')
       \<and> delivered (exec_run n sched s) = delivered (exec_run n sched s')
       \<and> senders (exec_run n sched s) = senders (exec_run n sched s')"
  using assms
proof (induction sched arbitrary: s s')
  case Nil
  then show ?case by simp
next
  case (Cons w sched)
  note st = worker_step_sim[OF Cons.prems, of n w]
  have "recv_i (exec_run n sched (worker_step n w s)) = recv_i (exec_run n sched (worker_step n w s'))
       \<and> delivered (exec_run n sched (worker_step n w s)) = delivered (exec_run n sched (worker_step n w s'))
       \<and> senders (exec_run n sched (worker_step n w s)) = senders (exec_run n sched (worker_step n w s'))"
    using st by (intro Cons.IH) simp_all
  then show ?case by simp
qed

lemma MultiQueries_pages_append:
  "MultiQueries_pages (ps @ ps') cb s = MultiQueries_pages ps' cb (MultiQueries_pages ps cb s)"
  by (simp add: MultiQueries_pages_def)

lemma prefix_MultiQueries_pages:
  "prefix (snd s) (snd (MultiQueries_pages ps (Callback record_all_callback) s))"
proof (induction ps arbitrary: s)
  case Nil
  show ?case by (simp add: MultiQueries_pages_def)
next
  case (Cons p ps)
  obtain q b where p: "p = (q, b)" by (cases p)
  let ?s1 = "snd (Callback record_all_callback q b s)"
  have "prefix (snd s) (snd ?s1)"
    by (cases s) (simp add: Callback_def record_all_callback_def split: prod.splits)
  also have "prefix \<dots> (snd (MultiQueries_pages ps (Callback record_all_callback) ?s1))"
    by (rule Cons.IH)
  finally show ?case by (simp add: MultiQueries_pages_def p)
qed

lemma DoParallelQueries_independent:
  fixes tq :: "('a, 'e) TableQuerier" and tq' :: "('a, 'f) TableQuerier"
  assumes "\<forall>g. fst (tq' g) = fst (tq g)"
  shows "map_option sent (DoParallelQueries tq' queries sched)
           = map_option sent (DoParallelQueries tq queries sched)
       \<and> map_option arrivals (DoParallelQueries tq' queries sched)
           = map_option arrivals (DoParallelQueries tq queries sched)
       \<and> map_option calls (DoParallelQueries tq' queries sched)
           = map_option calls (DoParallelQueries tq queries sched)"
proof (cases "length queries = 0")
  case True
  then show ?thesis by (simp add: DoParallelQueries_empty)
next
  case False
  show ?thesis
  proof (cases "length queries \<le> 100")
    case True
    with False assms show ?thesis
      by (simp add: DoParallelQueries_sync split: prod.splits)
  next
    case F: False
    then have big: "100 < length queries" by simp
    let ?s = "exec_run (length queries) sched
                (exec_init NewIndexDeduper (map spawn (map tq (dispatch_loop 0 queries))))"
    let ?s' = "exec_run (length queries) sched
                (exec_init NewIndexDeduper (map spawn (map tq' (dispatch_loop 0 queries))))"
    have "recv_i ?s' = recv_i ?s \<and> delivered ?s' = delivered ?s \<and> senders ?s' = senders ?s"
      by (rule exec_run_sim) (simp_all add: assms)
    then show ?thesis
      by (simp add: DoParallelQueries_fan_out[OF big])
  qed
qed

lemma DoParallelQueries_arrivals:
  assumes "DoParallelQueries tq queries sched = Some res"
  shows "distinct (arrivals res)"
    and "set (arrivals res) = {..<length (calls res)}"
    and "returned res = last_error (map (\<lambda>k. snd (tq (calls res ! k))) (arrivals res))"
proof -
  have "distinct (arrivals res) \<and> set (arrivals res) = {..<length (calls res)}
      \<and> returned res = last_error (map (\<lambda>k. snd (tq (calls res ! k))) (arrivals res))"
  proof (cases "length queries = 0")
    case True
    with assms show ?thesis by (auto simp: DoParallelQueries_empty last_error_def)
  next
    case False
    show ?thesis
    proof (cases "length queries \<le> 100")
      case True
      from assms False True have "returned res = snd (tq queries)" "calls res = [queries]"
        "arrivals res = [0]"
        by (auto simp: DoParallelQueries_sync split: prod.splits)
      then show ?thesis by (auto simp: last_error_def)
    next
      case F: False
      then have big: "100 < length queries" by simp
      let ?runs = "map tq (dispatch_loop 0 queries)"
      let ?s = "exec_run (length queries) sched (exec_init NewIndexDeduper (map spawn ?runs))"
      from assms have fin: "\<not> recv_i ?s < length queries"
        and res: "res = \<lparr>returned = q_lastErr ?s, calls = dispatch_loop 0 queries,
                         sent = delivered ?s, arrivals = senders ?s\<rparr>"
        by (simp_all add: DoParallelQueries_fan_out[OF big] split: if_splits)
      have len: "length ?runs = (length queries + 99) div 100"
        by (simp add: length_dispatch_loop)
      note fa = fan_out_arrivals[OF refl len, of sched]
      have c: "length (workers ?s) = length ?runs"
        using exec_run_count[of "exec_init NewIndexDeduper (map spawn ?runs)" "length queries" sched]
        by simp
      from fa(1) fin have "list_all reported (workers ?s)" by simp
      then have "\<forall>k<length (workers ?s). reported (workers ?s ! k)"
        by (simp add: list_all_length)
      with c have "{k. k < length ?runs \<and> reported (workers ?s ! k)} = {..<length ?runs}"
        by auto
      with fa(4) have st: "set (senders ?s) = {..<length (dispatch_loop 0 queries)}" by simp
      have m: "map (\<lambda>k. snd (?runs ! k)) (senders ?s)
          = map (\<lambda>k. snd (tq (dispatch_loop 0 queries ! k))) (senders ?s)"
        using st by simp
      have "q_lastErr ?s = last_error (received ?s)" by (rule fa(6))
      also have "received ?s = map (\<lambda>k. snd (?runs ! k)) (senders ?s)" by (rule fa(2))
      also note m
      finally have "q_lastErr ?s
          = last_error (map (\<lambda>k. snd (tq (dispatch_loop 0 queries ! k))) (senders ?s))" .
      with fa(3) st show ?thesis unfolding res by simp
    qed
  qed
  then show "distinct (arrivals res)"
    and "set (arrivals res) = {..<length (calls res)}"
    and "returned res = last_error (map (\<lambda>k. snd (tq (calls res ! k))) (arrivals res))"
    by simp_all
qed

lemma example_two_errors_a:
  "DoParallelQueries
     (\<lambda>g. if length g = 100
          then ([(\<lparr>TableName = ''t'', HashValue = ''h1''\<rparr>, [(''r1'', ''v1'')])], Some ''boom'')
          else ([(\<lparr>TableName = ''t'', HashValue = ''h1''\<rparr>, [(''r1'', ''v1'')])], Some ''bang''))
     (replicate 101 \<lparr>TableName = ''t'', HashValue = ''h1''\<rparr>)
     [0, 1, 0, 1, 1, 0]
   = Some \<lparr>returned = Some ''boom'',
            calls = [replicate 100 \<lparr>TableName = ''t'', HashValue = ''h1''\<rparr>,
                     [\<lparr>TableName = ''t'', HashValue = ''h1''\<rparr>]],
            sent = [(\<lparr>TableName = ''t'', HashValue = ''h1''\<rparr>, (''r1'', ''v1''))],
            arrivals = [1, 0]\<rparr>"
  by (simp add: DoParallelQueries_fan_out dispatch_loop_replicate_101 worker_step_def Let_def
      isSeen_RLocked_def isSeen_Locked_def seenRange_def NewIndexDeduper_def
      maxQueriesPerGoroutine_def exec_init_def spawn_def page_entries_def)

lemma example_two_errors_b:
  "DoParallelQueries
     (\<lambda>g. if length g = 100
          then ([(\<lparr>TableName = ''t'', HashValue = ''h1''\<rparr>, [(''r1'', ''v1'')])], Some ''boom'')
          else ([(\<lparr>TableName = ''t'', HashValue = ''h1''\<rparr>, [(''r1'', ''v1'')])], Some ''bang''))
     (replicate 101 \<lparr>TableName = ''t'', HashValue = ''h1''\<rparr>)
     [0, 1, 0, 1, 0, 1]
   = Some \<lparr>returned = Some ''bang'',
            calls = [replicate 100 \<lparr>TableName = ''t'', HashValue = ''h1''\<rparr>,
                     [\<lparr>TableName = ''t'', HashValue = ''h1''\<rparr>]],
            sent = [(\<lparr>TableName = ''t'', HashValue = ''h1''\<rparr>, (''r1'', ''v1''))],
            arrivals = [0, 1]\<rparr>"
  by (simp add: DoParallelQueries_fan_out dispatch_loop_replicate_101 worker_step_def Let_def
      isSeen_RLocked_def isSeen_Locked_def seenRange_def NewIndexDeduper_def
      maxQueriesPerGoroutine_def exec_init_def spawn_def page_entries_def)

lemma example_not_returned:
  "DoParallelQueries
     (\<lambda>g. if length g = 100
          then ([(\<lparr>TableName = ''t'', HashValue = ''h1''\<rparr>, [(''r1'', ''v1'')])], Some ''boom'')
          else ([(\<lparr>TableName = ''t'', HashValue = ''h1''\<rparr>, [(''r1'', ''v1'')])], Some ''bang''))
     (replicate 101 \<lparr>TableName = ''t'', HashValue = ''h1''\<rparr>)
     [0, 1, 0, 1, 0]
   = None"
  by (simp add: DoParallelQueries_fan_out dispatch_loop_replicate_101 worker_step_def Let_def
      isSeen_RLocked_def isSeen_Locked_def seenRange_def NewIndexDeduper_def
      maxQueriesPerGoroutine_def exec_init_def spawn_def page_entries_def)

lemma example_sync_error:
  "DoParallelQueries
     (\<lambda>g. ([(\<lparr>TableName = ''t'', HashValue = ''h1''\<rparr>, [(''r1'', ''v1''), (''r1'', ''v1'')]),
            (\<lparr>TableName = ''t'', HashValue = ''h1''\<rparr>, [(''r2'', ''v2'')])], Some ''boom''))
     [\<lparr>TableName = ''t'', HashValue = ''h1''\<rparr>]
     []
   = Some \<lparr>returned = Some ''boom'',
            calls = [[\<lparr>TableName = ''t'', HashValue = ''h1''\<rparr>]],
            sent = [(\<lparr>TableName = ''t'', HashValue = ''h1''\<rparr>, (''r1'', ''v1'')),
                    (\<lparr>TableName = ''t'', HashValue = ''h1''\<rparr>, (''r2'', ''v2''))],
            arrivals = [0]\<rparr>"
  by (simp add: DoParallelQueries_sync MultiQueries_pages_def Callback_def record_all_callback_def
      filteringBatch_Iterator_def ReadBatch_Iterator_def consume_all_Cons consume_all_Nil
      isSeen_Locked_def seenRange_def NewIndexDeduper_def)

text \<open>
  C3. On the empty query list \<open>DoParallelQueries\<close> returns \<open>nil\<close> and makes no
  \<open>MultiQueries\<close> call. On any list, every schedule of the workers can be continued
  to one after which the call has returned. When it has returned, every call made
  has handed its result back exactly once (\<open>arrivals\<close> lists each position of
  \<open>calls\<close> once), and the returned error is the last non-nil one in that order of
  arrival: \<open>nil\<close> exactly when every call succeeded, and otherwise the error of one
  of the calls, never a combination. In the fan-out the call has returned exactly
  when every worker has sent its result, not before; the order of arrival is the
  order in which the schedule lets the workers send; at every point of a run
  \<open>lastErr\<close> is the last non-nil value received so far, and one step changes the
  logs and \<open>lastErr\<close> by the sending worker's result only. The entries delivered
  downstream only ever grow: what was delivered at any point of a run is a prefix
  of what has been delivered at every later point and of what the call has sent
  when it returns, whatever errors arrive; with 1 to 100 queries what the callback
  received after any number of pages is a prefix of what the call has sent, and
  the returned error is the one of the single call. On every path the pairs sent
  are those of the pages of all the calls, failed or not, and what is sent, the
  order of arrival and the calls made are the same for two queriers that hand out
  the same pages, whatever errors they return.
\<close>

theorem DoParallelQueries_returns_last_error:
  "DoParallelQueries tq [] sched_e
     = Some \<lparr>returned = None, calls = [], sent = [], arrivals = []\<rparr>
   \<and> (\<exists>sched'. DoParallelQueries tq queries (sched_p @ sched') \<noteq> None)
   \<and> (DoParallelQueries tq queries sched = Some res \<longrightarrow>
        distinct (arrivals res)
        \<and> set (arrivals res) = {..<length (calls res)}
        \<and> returned res = last_error (map (\<lambda>k. snd (tq (calls res ! k))) (arrivals res))
        \<and> (\<exists>arrival. mset arrival = mset (map (\<lambda>g. snd (tq g)) (calls res))
            \<and> returned res = last_error arrival)
        \<and> (returned res = None \<longleftrightarrow> (\<forall>g\<in>set (calls res). snd (tq g) = None))
        \<and> (returned res = None \<or> returned res \<in> (\<lambda>g. snd (tq g)) ` set (calls res))
        \<and> set (map pairOf (sent res))
            = (\<Union>g\<in>set (calls res). pairOf ` set (page_entries (fst (tq g)))))
   \<and> (100 < length queries \<longrightarrow>
        (DoParallelQueries tq queries sched \<noteq> None
           \<longleftrightarrow> list_all reported (workers (exec_run (length queries) sched
                  (exec_init NewIndexDeduper (map spawn (map tq (dispatch_loop 0 queries)))))))
        \<and> map_option arrivals (DoParallelQueries tq queries sched)
            = (if list_all reported (workers (exec_run (length queries) sched
                  (exec_init NewIndexDeduper (map spawn (map tq (dispatch_loop 0 queries))))))
               then Some (senders (exec_run (length queries) sched
                  (exec_init NewIndexDeduper (map spawn (map tq (dispatch_loop 0 queries))))))
               else None)
        \<and> subseq (senders (exec_run (length queries) sched
                  (exec_init NewIndexDeduper (map spawn (map tq (dispatch_loop 0 queries))))))
             sched
        \<and> received (exec_run (length queries) sched
                  (exec_init NewIndexDeduper (map spawn (map tq (dispatch_loop 0 queries)))))
            = map (\<lambda>k. snd (tq (dispatch_loop 0 queries ! k)))
                (senders (exec_run (length queries) sched
                  (exec_init NewIndexDeduper (map spawn (map tq (dispatch_loop 0 queries))))))
        \<and> q_lastErr (exec_run (length queries) sched
                  (exec_init NewIndexDeduper (map spawn (map tq (dispatch_loop 0 queries)))))
            = last_error (received (exec_run (length queries) sched
                  (exec_init NewIndexDeduper (map spawn (map tq (dispatch_loop 0 queries)))))))
   \<and> senders (worker_step n w s)
       = (if w < length (workers s) \<and> \<not> reported (workers s ! w) \<and> todo (workers s ! w) = []
             \<and> recv_i s < n
          then senders s @ [w] else senders s)
   \<and> received (worker_step n w s)
       = (if w < length (workers s) \<and> \<not> reported (workers s ! w) \<and> todo (workers s ! w) = []
             \<and> recv_i s < n
          then received s @ [outcome (workers s ! w)] else received s)
   \<and> q_lastErr (worker_step n w s)
       = (if w < length (workers s) \<and> \<not> reported (workers s ! w) \<and> todo (workers s ! w) = []
             \<and> recv_i s < n \<and> outcome (workers s ! w) \<noteq> None
          then outcome (workers s ! w) else q_lastErr s)
   \<and> prefix (delivered s) (delivered (exec_run n sched_q s))
   \<and> (100 < length queries \<and> DoParallelQueries tq queries (sched_a @ sched_b) = Some res_b \<longrightarrow>
        prefix (delivered (exec_run (length queries) sched_a
                  (exec_init NewIndexDeduper (map spawn (map tq (dispatch_loop 0 queries))))))
               (sent res_b))
   \<and> (1 \<le> length queries \<and> length queries \<le> 100 \<longrightarrow>
        DoParallelQueries tq queries sched
          = Some \<lparr>returned = snd (tq queries), calls = [queries],
                  sent = snd (MultiQueries_pages (fst (tq queries)) (Callback record_all_callback)
                                (NewIndexDeduper, [])),
                  arrivals = [0]\<rparr>
        \<and> (fst (tq queries) = pages_a @ pages_b \<longrightarrow>
             prefix (snd (MultiQueries_pages pages_a (Callback record_all_callback)
                            (NewIndexDeduper, [])))
                    (snd (MultiQueries_pages (fst (tq queries)) (Callback record_all_callback)
                            (NewIndexDeduper, [])))))
   \<and> ((\<forall>g. fst (tq' g) = fst (tq g)) \<longrightarrow>
        map_option sent (DoParallelQueries tq' queries sched)
          = map_option sent (DoParallelQueries tq queries sched)
        \<and> map_option arrivals (DoParallelQueries tq' queries sched)
          = map_option arrivals (DoParallelQueries tq queries sched)
        \<and> map_option calls (DoParallelQueries tq' queries sched)
          = map_option calls (DoParallelQueries tq queries sched))"
proof -
  let ?run = "\<lambda>sched. exec_run (length queries) sched
                (exec_init NewIndexDeduper (map spawn (map tq (dispatch_loop 0 queries))))"
  have c1: "DoParallelQueries tq [] sched_e
     = Some \<lparr>returned = None, calls = [], sent = [], arrivals = []\<rparr>"
    by (rule DoParallelQueries_empty)
  have c2: "\<exists>sched'. DoParallelQueries tq queries (sched_p @ sched') \<noteq> None"
    by (rule DoParallelQueries_extends)
  have c3: "DoParallelQueries tq queries sched = Some res \<longrightarrow>
        distinct (arrivals res)
        \<and> set (arrivals res) = {..<length (calls res)}
        \<and> returned res = last_error (map (\<lambda>k. snd (tq (calls res ! k))) (arrivals res))
        \<and> (\<exists>arrival. mset arrival = mset (map (\<lambda>g. snd (tq g)) (calls res))
            \<and> returned res = last_error arrival)
        \<and> (returned res = None \<longleftrightarrow> (\<forall>g\<in>set (calls res). snd (tq g) = None))
        \<and> (returned res = None \<or> returned res \<in> (\<lambda>g. snd (tq g)) ` set (calls res))
        \<and> set (map pairOf (sent res))
            = (\<Union>g\<in>set (calls res). pairOf ` set (page_entries (fst (tq g))))"
  proof
    assume a: "DoParallelQueries tq queries sched = Some res"
    note ar = DoParallelQueries_arrivals[OF a]
    from DoParallelQueries_returned[OF a] obtain arrival where
      m: "mset arrival = mset (map (\<lambda>g. snd (tq g)) (calls res))"
      and l: "returned res = last_error arrival" by blast
    from m have st: "set arrival = (\<lambda>g. snd (tq g)) ` set (calls res)"
      by (metis mset_eq_setD set_map)
    have b: "returned res = None \<longleftrightarrow> (\<forall>g\<in>set (calls res). snd (tq g) = None)"
      unfolding l last_error_None_iff st by simp
    have c: "returned res = None \<or> returned res \<in> (\<lambda>g. snd (tq g)) ` set (calls res)"
    proof (cases "returned res")
      case None
      then show ?thesis by simp
    next
      case (Some e)
      with l have "last_error arrival = Some e" by simp
      then have "Some e \<in> set arrival" by (rule last_error_in_set)
      with Some st show ?thesis by simp
    qed
    have e: "\<exists>arrival. mset arrival = mset (map (\<lambda>g. snd (tq g)) (calls res))
            \<and> returned res = last_error arrival"
      using m l by blast
    note sd = DoParallelQueries_sent_distinct[OF a, THEN conjunct2]
    from ar(1) ar(2) ar(3) e b c sd
    show "distinct (arrivals res)
        \<and> set (arrivals res) = {..<length (calls res)}
        \<and> returned res = last_error (map (\<lambda>k. snd (tq (calls res ! k))) (arrivals res))
        \<and> (\<exists>arrival. mset arrival = mset (map (\<lambda>g. snd (tq g)) (calls res))
            \<and> returned res = last_error arrival)
        \<and> (returned res = None \<longleftrightarrow> (\<forall>g\<in>set (calls res). snd (tq g) = None))
        \<and> (returned res = None \<or> returned res \<in> (\<lambda>g. snd (tq g)) ` set (calls res))
        \<and> set (map pairOf (sent res))
            = (\<Union>g\<in>set (calls res). pairOf ` set (page_entries (fst (tq g))))"
      by (intro conjI)
  qed
  have c4: "100 < length queries \<longrightarrow>
        (DoParallelQueries tq queries sched \<noteq> None
           \<longleftrightarrow> list_all reported (workers (?run sched)))
        \<and> map_option arrivals (DoParallelQueries tq queries sched)
            = (if list_all reported (workers (?run sched)) then Some (senders (?run sched))
               else None)
        \<and> subseq (senders (?run sched)) sched
        \<and> received (?run sched)
            = map (\<lambda>k. snd (tq (dispatch_loop 0 queries ! k))) (senders (?run sched))
        \<and> q_lastErr (?run sched) = last_error (received (?run sched))"
  proof
    assume big: "100 < length queries"
    let ?runs = "map tq (dispatch_loop 0 queries)"
    have len: "length ?runs = (length queries + 99) div 100"
      by (simp add: length_dispatch_loop)
    note fa = fan_out_arrivals[OF refl len, of sched]
    have i: "DoParallelQueries tq queries sched \<noteq> None \<longleftrightarrow> list_all reported (workers (?run sched))"
      using fa(1) by (auto simp: DoParallelQueries_fan_out[OF big])
    have j: "map_option arrivals (DoParallelQueries tq queries sched)
            = (if list_all reported (workers (?run sched)) then Some (senders (?run sched))
               else None)"
      using fa(1) by (auto simp: DoParallelQueries_fan_out[OF big])
    have "k < length (dispatch_loop 0 queries)" if "k \<in> set (senders (?run sched))" for k
      using that fa(4) by simp
    then have "map (\<lambda>k. snd (?runs ! k)) (senders (?run sched))
        = map (\<lambda>k. snd (tq (dispatch_loop 0 queries ! k))) (senders (?run sched))"
      by simp
    with fa(2) have r: "received (?run sched)
        = map (\<lambda>k. snd (tq (dispatch_loop 0 queries ! k))) (senders (?run sched))"
      by (simp only:)
    from i j fa(5) r fa(6)
    show "(DoParallelQueries tq queries sched \<noteq> None
           \<longleftrightarrow> list_all reported (workers (?run sched)))
        \<and> map_option arrivals (DoParallelQueries tq queries sched)
            = (if list_all reported (workers (?run sched)) then Some (senders (?run sched))
               else None)
        \<and> subseq (senders (?run sched)) sched
        \<and> received (?run sched)
            = map (\<lambda>k. snd (tq (dispatch_loop 0 queries ! k))) (senders (?run sched))
        \<and> q_lastErr (?run sched) = last_error (received (?run sched))"
      by (intro conjI)
  qed
  note c5 = worker_step_send[of n w s, THEN conjunct1]
  note c6 = worker_step_send[of n w s, THEN conjunct2, THEN conjunct1]
  note c7 = worker_step_send[of n w s, THEN conjunct2, THEN conjunct2]
  have c8: "prefix (delivered s) (delivered (exec_run n sched_q s))"
    by (rule prefix_exec_run)
  have c9: "100 < length queries \<and> DoParallelQueries tq queries (sched_a @ sched_b) = Some res_b \<longrightarrow>
        prefix (delivered (?run sched_a)) (sent res_b)"
  proof
    assume "100 < length queries \<and> DoParallelQueries tq queries (sched_a @ sched_b) = Some res_b"
    then have big: "100 < length queries"
      and a: "DoParallelQueries tq queries (sched_a @ sched_b) = Some res_b" by simp_all
    from a have "sent res_b = delivered (?run (sched_a @ sched_b))"
      by (auto simp: DoParallelQueries_fan_out[OF big] split: if_splits)
    then show "prefix (delivered (?run sched_a)) (sent res_b)"
      by (simp add: exec_run_append prefix_exec_run)
  qed
  have c10: "1 \<le> length queries \<and> length queries \<le> 100 \<longrightarrow>
        DoParallelQueries tq queries sched
          = Some \<lparr>returned = snd (tq queries), calls = [queries],
                  sent = snd (MultiQueries_pages (fst (tq queries)) (Callback record_all_callback)
                                (NewIndexDeduper, [])),
                  arrivals = [0]\<rparr>
        \<and> (fst (tq queries) = pages_a @ pages_b \<longrightarrow>
             prefix (snd (MultiQueries_pages pages_a (Callback record_all_callback)
                            (NewIndexDeduper, [])))
                    (snd (MultiQueries_pages (fst (tq queries)) (Callback record_all_callback)
                            (NewIndexDeduper, []))))"
  proof
    assume "1 \<le> length queries \<and> length queries \<le> 100"
    then have l: "0 < length queries" "length queries \<le> 100" by linarith+
    have x: "DoParallelQueries tq queries sched
          = Some \<lparr>returned = snd (tq queries), calls = [queries],
                  sent = snd (MultiQueries_pages (fst (tq queries)) (Callback record_all_callback)
                                (NewIndexDeduper, [])),
                  arrivals = [0]\<rparr>"
      by (simp add: DoParallelQueries_sync[OF l] split: prod.splits)
    have y: "fst (tq queries) = pages_a @ pages_b \<longrightarrow>
             prefix (snd (MultiQueries_pages pages_a (Callback record_all_callback)
                            (NewIndexDeduper, [])))
                    (snd (MultiQueries_pages (fst (tq queries)) (Callback record_all_callback)
                            (NewIndexDeduper, [])))"
    proof
      assume p: "fst (tq queries) = pages_a @ pages_b"
      show "prefix (snd (MultiQueries_pages pages_a (Callback record_all_callback)
                            (NewIndexDeduper, [])))
                    (snd (MultiQueries_pages (fst (tq queries)) (Callback record_all_callback)
                            (NewIndexDeduper, [])))"
        unfolding p MultiQueries_pages_append by (rule prefix_MultiQueries_pages)
    qed
    from x y show "DoParallelQueries tq queries sched
          = Some \<lparr>returned = snd (tq queries), calls = [queries],
                  sent = snd (MultiQueries_pages (fst (tq queries)) (Callback record_all_callback)
                                (NewIndexDeduper, [])),
                  arrivals = [0]\<rparr>
        \<and> (fst (tq queries) = pages_a @ pages_b \<longrightarrow>
             prefix (snd (MultiQueries_pages pages_a (Callback record_all_callback)
                            (NewIndexDeduper, [])))
                    (snd (MultiQueries_pages (fst (tq queries)) (Callback record_all_callback)
                            (NewIndexDeduper, []))))"
      by (intro conjI)
  qed
  have c11: "(\<forall>g. fst (tq' g) = fst (tq g)) \<longrightarrow>
        map_option sent (DoParallelQueries tq' queries sched)
          = map_option sent (DoParallelQueries tq queries sched)
        \<and> map_option arrivals (DoParallelQueries tq' queries sched)
          = map_option arrivals (DoParallelQueries tq queries sched)
        \<and> map_option calls (DoParallelQueries tq' queries sched)
          = map_option calls (DoParallelQueries tq queries sched)"
    by (intro impI) (rule DoParallelQueries_independent)
  from c1 c2 c3 c4 c5 c6 c7 c8 c9 c10 c11 show ?thesis by (intro conjI)
qed

theorem DoParallelQueries_returns_last_error_witness:
  "DoParallelQueries
     (\<lambda>g. if length g = 100
          then ([(\<lparr>TableName = ''t'', HashValue = ''h1''\<rparr>, [(''r1'', ''v1'')])], Some ''boom'')
          else ([(\<lparr>TableName = ''t'', HashValue = ''h1''\<rparr>, [(''r1'', ''v1'')])], Some ''bang''))
     (replicate 101 \<lparr>TableName = ''t'', HashValue = ''h1''\<rparr>)
     [0, 1, 0, 1, 1, 0]
   = Some \<lparr>returned = Some ''boom'',
            calls = [replicate 100 \<lparr>TableName = ''t'', HashValue = ''h1''\<rparr>,
                     [\<lparr>TableName = ''t'', HashValue = ''h1''\<rparr>]],
            sent = [(\<lparr>TableName = ''t'', HashValue = ''h1''\<rparr>, (''r1'', ''v1''))],
            arrivals = [1, 0]\<rparr>
   \<and> Some ''boom'' = last_error [Some ''bang'', Some ''boom'']
   \<and> DoParallelQueries
     (\<lambda>g. if length g = 100
          then ([(\<lparr>TableName = ''t'', HashValue = ''h1''\<rparr>, [(''r1'', ''v1'')])], Some ''boom'')
          else ([(\<lparr>TableName = ''t'', HashValue = ''h1''\<rparr>, [(''r1'', ''v1'')])], Some ''bang''))
     (replicate 101 \<lparr>TableName = ''t'', HashValue = ''h1''\<rparr>)
     [0, 1, 0, 1, 0, 1]
   = Some \<lparr>returned = Some ''bang'',
            calls = [replicate 100 \<lparr>TableName = ''t'', HashValue = ''h1''\<rparr>,
                     [\<lparr>TableName = ''t'', HashValue = ''h1''\<rparr>]],
            sent = [(\<lparr>TableName = ''t'', HashValue = ''h1''\<rparr>, (''r1'', ''v1''))],
            arrivals = [0, 1]\<rparr>
   \<and> Some ''bang'' = last_error [Some ''boom'', Some ''bang'']
   \<and> DoParallelQueries
     (\<lambda>g. if length g = 100
          then ([(\<lparr>TableName = ''t'', HashValue = ''h1''\<rparr>, [(''r1'', ''v1'')])], Some ''boom'')
          else ([(\<lparr>TableName = ''t'', HashValue = ''h1''\<rparr>, [(''r1'', ''v1'')])], Some ''bang''))
     (replicate 101 \<lparr>TableName = ''t'', HashValue = ''h1''\<rparr>)
     [0, 1, 0, 1, 0]
   = None
   \<and> \<not> list_all reported (workers (exec_run
         (length (replicate 101 \<lparr>TableName = ''t'', HashValue = ''h1''\<rparr>)) [0, 1, 0, 1, 0]
         (exec_init NewIndexDeduper (map spawn (map
            (\<lambda>g. if length g = 100
               then ([(\<lparr>TableName = ''t'', HashValue = ''h1''\<rparr>, [(''r1'', ''v1'')])], Some ''boom'')
               else ([(\<lparr>TableName = ''t'', HashValue = ''h1''\<rparr>, [(''r1'', ''v1'')])], Some ''bang''))
            (dispatch_loop 0 (replicate 101 \<lparr>TableName = ''t'', HashValue = ''h1''\<rparr>)))))))
   \<and> DoParallelQueries
     (\<lambda>g. ([(\<lparr>TableName = ''t'', HashValue = ''h1''\<rparr>, [(''r1'', ''v1''), (''r1'', ''v1'')]),
            (\<lparr>TableName = ''t'', HashValue = ''h1''\<rparr>, [(''r2'', ''v2'')])], Some ''boom''))
     [\<lparr>TableName = ''t'', HashValue = ''h1''\<rparr>]
     []
   = Some \<lparr>returned = Some ''boom'',
            calls = [[\<lparr>TableName = ''t'', HashValue = ''h1''\<rparr>]],
            sent = [(\<lparr>TableName = ''t'', HashValue = ''h1''\<rparr>, (''r1'', ''v1'')),
                    (\<lparr>TableName = ''t'', HashValue = ''h1''\<rparr>, (''r2'', ''v2''))],
            arrivals = [0]\<rparr>
   \<and> prefix (snd (MultiQueries_pages
         [(\<lparr>TableName = ''t'', HashValue = ''h1''\<rparr>, [(''r1'', ''v1''), (''r1'', ''v1'')])]
         (Callback record_all_callback) (NewIndexDeduper, [])))
       [(\<lparr>TableName = ''t'', HashValue = ''h1''\<rparr>, (''r1'', ''v1'')),
        (\<lparr>TableName = ''t'', HashValue = ''h1''\<rparr>, (''r2'', ''v2''))]"
proof -
  let ?q = "\<lparr>TableName = ''t'', HashValue = ''h1''\<rparr>"
  let ?tq = "\<lambda>g :: IndexQuery list. if length g = 100
          then ([(?q, [(''r1'', ''v1'')])], Some ''boom'')
          else ([(?q, [(''r1'', ''v1'')])], Some ''bang'')"
  let ?ts = "\<lambda>g :: IndexQuery list.
          ([(?q, [(''r1'', ''v1''), (''r1'', ''v1'')]), (?q, [(''r2'', ''v2'')])], Some ''boom'')"
  have big: "100 < length (replicate 101 ?q)" by simp
  note A = DoParallelQueries_returns_last_error[where tq = ?tq
      and queries = "replicate 101 ?q" and sched = "[0, 1, 0, 1, 1, 0]",
      THEN conjunct2, THEN conjunct2, THEN conjunct1, THEN mp, OF example_two_errors_a,
      THEN conjunct2, THEN conjunct2, THEN conjunct1]
  have a: "Some ''boom'' = last_error [Some ''bang'', Some ''boom'']"
    using A by simp
  note B = DoParallelQueries_returns_last_error[where tq = ?tq
      and queries = "replicate 101 ?q" and sched = "[0, 1, 0, 1, 0, 1]",
      THEN conjunct2, THEN conjunct2, THEN conjunct1, THEN mp, OF example_two_errors_b,
      THEN conjunct2, THEN conjunct2, THEN conjunct1]
  have b: "Some ''bang'' = last_error [Some ''boom'', Some ''bang'']"
    using B by simp
  note C = DoParallelQueries_returns_last_error[where tq = ?tq
      and queries = "replicate 101 ?q" and sched = "[0, 1, 0, 1, 0]",
      THEN conjunct2, THEN conjunct2, THEN conjunct2, THEN conjunct1, THEN mp, OF big,
      THEN conjunct1]
  have c: "\<not> list_all reported (workers (exec_run (length (replicate 101 ?q)) [0, 1, 0, 1, 0]
         (exec_init NewIndexDeduper (map spawn (map ?tq (dispatch_loop 0 (replicate 101 ?q)))))))"
    using C example_not_returned by (simp only: not_not simp_thms)
  have s: "1 \<le> length [?q] \<and> length [?q] \<le> 100" by simp
  have p: "fst (?ts [?q]) = [(?q, [(''r1'', ''v1''), (''r1'', ''v1'')])] @ [(?q, [(''r2'', ''v2'')])]"
    by simp
  note D = DoParallelQueries_returns_last_error[where tq = ?ts
      and queries = "[?q]" and sched = "[]"
      and pages_a = "[(?q, [(''r1'', ''v1''), (''r1'', ''v1'')])]"
      and pages_b = "[(?q, [(''r2'', ''v2'')])]",
      THEN conjunct2, THEN conjunct2, THEN conjunct2, THEN conjunct2, THEN conjunct2,
      THEN conjunct2, THEN conjunct2, THEN conjunct2, THEN conjunct2, THEN conjunct1,
      THEN mp, OF s]
  note D1 = D[THEN conjunct1]
  note D2 = D[THEN conjunct2, THEN mp, OF p]
  have se: "Some \<lparr>returned = snd (?ts [?q]), calls = [[?q]],
                  sent = snd (MultiQueries_pages (fst (?ts [?q])) (Callback record_all_callback)
                                (NewIndexDeduper, [])),
                  arrivals = [0]\<rparr>
      = Some \<lparr>returned = Some ''boom'', calls = [[?q]],
            sent = [(?q, (''r1'', ''v1'')), (?q, (''r2'', ''v2''))], arrivals = [0]\<rparr>"
    using D1 example_sync_error by simp
  then have sn: "snd (MultiQueries_pages (fst (?ts [?q])) (Callback record_all_callback)
                                (NewIndexDeduper, []))
      = [(?q, (''r1'', ''v1'')), (?q, (''r2'', ''v2''))]"
    by simp
  have d: "prefix (snd (MultiQueries_pages [(?q, [(''r1'', ''v1''), (''r1'', ''v1'')])]
         (Callback record_all_callback) (NewIndexDeduper, [])))
       [(?q, (''r1'', ''v1'')), (?q, (''r2'', ''v2''))]"
    using D2 unfolding sn .
  from example_two_errors_a a example_two_errors_b b example_not_returned c example_sync_error d
  show ?thesis by (intro conjI)
qed




section \<open>Properties of the parallel chunk fetcher\<close>

subsection \<open>Steps of the fetch\<close>

lemma fetch_run_Nil [simp]: "fetch_run n f [] s = s"
  by (simp add: fetch_run_def)

lemma fetch_run_Cons [simp]: "fetch_run n f (ev # sched) s = fetch_run n f sched (fetch_step n f ev s)"
  by (simp add: fetch_run_def)

lemma fetch_run_append: "fetch_run n f (s1 @ s2) s = fetch_run n f s2 (fetch_run n f s1 s)"
  by (simp add: fetch_run_def)

lemma fetch_run_invariant:
  assumes "P s" and "\<And>s ev. P s \<Longrightarrow> P (fetch_step n f ev s)"
  shows "P (fetch_run n f sched s)"
  using assms(1) by (induction sched arbitrary: s) (auto intro: assms(2))

lemma successes_snoc [simp]:
  "successes (xs @ [Inr c]) = successes xs @ [c]" "successes (xs @ [Inl e]) = successes xs"
  by (simp_all add: successes_def)

lemma failures_snoc [simp]:
  "failures (xs @ [Inr c]) = failures xs" "failures (xs @ [Inl e]) = failures xs @ [e]"
  by (simp_all add: failures_def)

lemma last_failure_alt:
  "last_failure xs = (if failures xs = [] then None else Some (last (failures xs)))"
  by (cases "failures xs") (simp_all add: last_failure_def)

lemma last_failure_snoc [simp]:
  "last_failure (xs @ [Inr c]) = last_failure xs" "last_failure (xs @ [Inl e]) = Some e"
  by (simp_all add: last_failure_alt)

lemma mset_held_update:
  assumes "w < length hs"
  shows "mset (concat (map (\<lambda>h. case h of None \<Rightarrow> [] | Some x \<Rightarrow> [x]) (hs[w := y])))
           + mset (case hs ! w of None \<Rightarrow> [] | Some x \<Rightarrow> [x])
       = mset (concat (map (\<lambda>h. case h of None \<Rightarrow> [] | Some x \<Rightarrow> [x]) hs))
           + mset (case y of None \<Rightarrow> [] | Some x \<Rightarrow> [x])"
  using assms
proof (induction hs arbitrary: w)
  case Nil
  then show ?case by simp
next
  case (Cons h hs)
  show ?case
  proof (cases w)
    case 0
    then show ?thesis by simp
  next
    case (Suc v)
    with Cons.prems have "v < length hs" by simp
    from Cons.IH[OF this] Suc show ?thesis by (simp add: ac_simps)
  qed
qed

lemma held_take:
  assumes "w < length (holding s)" "holding s ! w = None"
  shows "mset (held (s\<lparr>holding := (holding s)[w := Some x]\<rparr>)) = add_mset x (mset (held s))"
  using mset_held_update[OF assms(1), of "Some x"] assms(2) by (simp add: held_def)

lemma held_deliver:
  assumes "w < length (holding s)" "holding s ! w = Some x"
  shows "add_mset x (mset (held (s\<lparr>holding := (holding s)[w := None]\<rparr>))) = mset (held s)"
  using mset_held_update[OF assms(1), of None] assms(2) by (simp add: held_def)

lemma fetch_step_cases:
  assumes idle: "fetch_step n f ev s = s \<Longrightarrow> P s"
    and take: "\<And>w c cs. \<lbrakk>ev = Take w; w < length (holding s); holding s ! w = None;
                 queuedChunks s = c # cs\<rbrakk>
        \<Longrightarrow> P (s\<lparr>queuedChunks := cs, holding := (holding s)[w := Some (f c)],
                 decoded := decoded s @ [c]\<rparr>)"
    and ok: "\<And>w chunk. \<lbrakk>ev = Deliver w; w < length (holding s); loop_i s < n;
                 holding s ! w = Some (Inr chunk)\<rbrakk>
        \<Longrightarrow> P (s\<lparr>holding := (holding s)[w := None], result := result s @ [chunk],
                 loop_i := loop_i s + 1, observed := observed s @ [Inr chunk]\<rparr>)"
    and err: "\<And>w e. \<lbrakk>ev = Deliver w; w < length (holding s); loop_i s < n;
                 holding s ! w = Some (Inl e)\<rbrakk>
        \<Longrightarrow> P (s\<lparr>holding := (holding s)[w := None], f_lastErr := Some e,
                 loop_i := loop_i s + 1, observed := observed s @ [Inl e]\<rparr>)"
  shows "P (fetch_step n f ev s)"
proof (cases ev)
  case (Take w)
  show ?thesis
  proof (cases "w < length (holding s) \<and> holding s ! w = None")
    case True
    show ?thesis
    proof (cases "queuedChunks s")
      case Nil
      with Take True have "fetch_step n f ev s = s" by simp
      with idle show ?thesis by simp
    next
      case (Cons c cs)
      with Take True take[of w c cs] show ?thesis by simp
    qed
  next
    case False
    with Take have "fetch_step n f ev s = s" by auto
    with idle show ?thesis by simp
  qed
next
  case (Deliver w)
  show ?thesis
  proof (cases "w < length (holding s) \<and> loop_i s < n")
    case True
    show ?thesis
    proof (cases "holding s ! w")
      case None
      with Deliver True have "fetch_step n f ev s = s" by simp
      with idle show ?thesis by simp
    next
      case (Some x)
      show ?thesis
      proof (cases x)
        case (Inl e)
        with Deliver True Some err[of w e] show ?thesis by simp
      next
        case (Inr chunk)
        with Deliver True Some ok[of w chunk] show ?thesis by simp
      qed
    qed
  next
    case False
    with Deliver have "fetch_step n f ev s = s" by auto
    with idle show ?thesis by simp
  qed
qed

lemma fetch_step_inv:
  assumes "decoded s @ queuedChunks s = chunks"
    and "mset (observed s) + mset (held s) = mset (map f (decoded s))"
    and "result s = successes (observed s)"
    and "f_lastErr s = last_failure (observed s)"
    and "loop_i s = length (observed s)"
  shows "decoded (fetch_step n f ev s) @ queuedChunks (fetch_step n f ev s) = chunks
       \<and> mset (observed (fetch_step n f ev s)) + mset (held (fetch_step n f ev s))
           = mset (map f (decoded (fetch_step n f ev s)))
       \<and> result (fetch_step n f ev s) = successes (observed (fetch_step n f ev s))
       \<and> f_lastErr (fetch_step n f ev s) = last_failure (observed (fetch_step n f ev s))
       \<and> loop_i (fetch_step n f ev s) = length (observed (fetch_step n f ev s))"
proof (rule fetch_step_cases[of n f ev s], goal_cases)
  case 1
  with assms show ?case by simp
next
  case (2 w c cs)
  have h: "mset (held (s\<lparr>queuedChunks := cs, holding := (holding s)[w := Some (f c)],
                 decoded := decoded s @ [c]\<rparr>)) = add_mset (f c) (mset (held s))"
    using held_take[OF 2(2,3), of "f c"] by (simp add: held_def)
  from assms 2 show ?case by (simp add: h)
next
  case (3 w chunk)
  have h: "add_mset (Inr chunk) (mset (held (s\<lparr>holding := (holding s)[w := None],
         result := result s @ [chunk], loop_i := loop_i s + 1,
         observed := observed s @ [Inr chunk]\<rparr>))) = mset (held s)"
    using held_deliver[OF 3(2,4)] by (simp add: held_def)
  from assms 3 show ?case by (simp add: h[symmetric])
next
  case (4 w e)
  have h: "add_mset (Inl e) (mset (held (s\<lparr>holding := (holding s)[w := None],
         f_lastErr := Some e, loop_i := loop_i s + 1,
         observed := observed s @ [Inl e]\<rparr>))) = mset (held s)"
    using held_deliver[OF 4(2,4)] by (simp add: held_def)
  from assms 4 show ?case by (simp add: h[symmetric])
qed

subsection \<open>Progress of the fetch\<close>

lemma length_held_take:
  assumes "w < length (holding s)" "holding s ! w = None"
  shows "length (held (s\<lparr>holding := (holding s)[w := Some x]\<rparr>)) = Suc (length (held s))"
proof -
  have "size (mset (held (s\<lparr>holding := (holding s)[w := Some x]\<rparr>))) = size (add_mset x (mset (held s)))"
    by (simp only: held_take[OF assms])
  then show ?thesis by simp
qed

lemma length_held_deliver:
  assumes "w < length (holding s)" "holding s ! w = Some x"
  shows "Suc (length (held (s\<lparr>holding := (holding s)[w := None]\<rparr>))) = length (held s)"
proof -
  have "size (add_mset x (mset (held (s\<lparr>holding := (holding s)[w := None]\<rparr>)))) = size (mset (held s))"
    by (simp only: held_deliver[OF assms])
  then show ?thesis by simp
qed

lemma fetch_progress_take:
  assumes "w < length (holding s)" "holding s ! w = None" "queuedChunks s = c # cs"
  shows "fetch_left (fetch_step n f (Take w) s) < fetch_left s
       \<and> length (holding (fetch_step n f (Take w) s)) = length (holding s)"
proof -
  have "length (held (s\<lparr>queuedChunks := cs, holding := (holding s)[w := Some (f c)],
                 decoded := decoded s @ [c]\<rparr>)) = Suc (length (held s))"
    using length_held_take[OF assms(1,2), of "f c"] by (simp add: held_def)
  with assms show ?thesis by (simp add: fetch_left_def)
qed

lemma fetch_progress_deliver:
  assumes "w < length (holding s)" "holding s ! w = Some x" "loop_i s < n"
  shows "fetch_left (fetch_step n f (Deliver w) s) < fetch_left s
       \<and> length (holding (fetch_step n f (Deliver w) s)) = length (holding s)"
proof (cases x)
  case (Inl e)
  have "Suc (length (held (s\<lparr>holding := (holding s)[w := None], f_lastErr := Some e,
         loop_i := loop_i s + 1, observed := observed s @ [Inl e]\<rparr>))) = length (held s)"
    using length_held_deliver[OF assms(1,2)] by (simp add: held_def)
  with assms Inl show ?thesis by (simp add: fetch_left_def)
next
  case (Inr chunk)
  have "Suc (length (held (s\<lparr>holding := (holding s)[w := None], result := result s @ [chunk],
         loop_i := loop_i s + 1, observed := observed s @ [Inr chunk]\<rparr>))) = length (held s)"
    using length_held_deliver[OF assms(1,2)] by (simp add: held_def)
  with assms Inr show ?thesis by (simp add: fetch_left_def)
qed

lemma held_all_idle:
  assumes "\<forall>w<length (holding s). holding s ! w = None"
  shows "held s = []"
proof -
  from assms have "\<forall>h\<in>set (holding s). h = None"
    by (auto simp: in_set_conv_nth)
  then have "map (\<lambda>h. case h of None \<Rightarrow> [] | Some x \<Rightarrow> [x]) (holding s)
      = map (\<lambda>h. []) (holding s)"
    by (intro map_cong) auto
  then show ?thesis by (simp add: held_def)
qed

lemma fetch_counts:
  assumes "decoded s @ queuedChunks s = chunks"
    and "mset (observed s) + mset (held s) = mset (map f (decoded s))"
    and "loop_i s = length (observed s)"
  shows "loop_i s + length (held s) + length (queuedChunks s) = length chunks"
proof -
  have "size (mset (observed s) + mset (held s)) = size (mset (map f (decoded s)))"
    by (simp only: assms(2))
  then have "length (observed s) + length (held s) = length (decoded s)" by simp
  moreover have "length (decoded s) + length (queuedChunks s) = length chunks"
    using assms(1) by (metis length_append)
  ultimately show ?thesis using assms(3) by simp
qed

lemma fetch_completes:
  assumes "decoded s @ queuedChunks s = chunks"
    and "mset (observed s) + mset (held s) = mset (map f (decoded s))"
    and "result s = successes (observed s)"
    and "f_lastErr s = last_failure (observed s)"
    and "loop_i s = length (observed s)"
    and "0 < length (holding s)"
  shows "\<exists>sched. \<not> loop_i (fetch_run (length chunks) f sched s) < length chunks"
  using assms
proof (induction "fetch_left s" arbitrary: s rule: less_induct)
  case less
  let ?n = "length chunks"
  show ?case
  proof (cases "loop_i s < ?n")
    case False
    then have "\<not> loop_i (fetch_run ?n f [] s) < ?n" by simp
    then show ?thesis by blast
  next
    case True
    have "\<exists>ev. fetch_left (fetch_step ?n f ev s) < fetch_left s
            \<and> length (holding (fetch_step ?n f ev s)) = length (holding s)"
    proof (cases "\<forall>w<length (holding s). holding s ! w = None")
      case idle: True
      then have "held s = []" by (rule held_all_idle)
      with fetch_counts[OF less.prems(1,2,5)] True have "queuedChunks s \<noteq> []" by auto
      then obtain c cs where "queuedChunks s = c # cs" by (cases "queuedChunks s") auto
      moreover from idle less.prems(6) have "holding s ! 0 = None" by simp
      ultimately have "fetch_left (fetch_step ?n f (Take 0) s) < fetch_left s
            \<and> length (holding (fetch_step ?n f (Take 0) s)) = length (holding s)"
        using less.prems(6) by (intro fetch_progress_take) simp_all
      then show ?thesis by (rule exI)
    next
      case False
      then obtain w x where "w < length (holding s)" "holding s ! w = Some x" by auto
      with True have "fetch_left (fetch_step ?n f (Deliver w) s) < fetch_left s
            \<and> length (holding (fetch_step ?n f (Deliver w) s)) = length (holding s)"
        by (intro fetch_progress_deliver) simp_all
      then show ?thesis by (rule exI)
    qed
    then obtain ev where p: "fetch_left (fetch_step ?n f ev s) < fetch_left s"
      and l: "length (holding (fetch_step ?n f ev s)) = length (holding s)" by blast
    note i = fetch_step_inv[OF less.prems(1-5), of ?n ev]
    from i less.prems(6) l
    have "\<exists>sched. \<not> loop_i (fetch_run ?n f sched (fetch_step ?n f ev s)) < ?n"
      by (intro less.hyps[OF p]) simp_all
    then obtain sched where "\<not> loop_i (fetch_run ?n f sched (fetch_step ?n f ev s)) < ?n" by blast
    then have "\<not> loop_i (fetch_run ?n f (ev # sched) s) < ?n" by simp
    then show ?thesis by blast
  qed
qed

lemma fetch_run_inv:
  fixes chunks :: "'c list" and f :: "'c \<Rightarrow> 'e + 'c"
  assumes s: "s = fetch_run n f sched (fetch_init maxParallel chunks)"
  shows "decoded s @ queuedChunks s = chunks
       \<and> mset (observed s) + mset (held s) = mset (map f (decoded s))
       \<and> result s = successes (observed s)
       \<and> f_lastErr s = last_failure (observed s)
       \<and> loop_i s = length (observed s)"
  unfolding s
proof (rule fetch_run_invariant[where P = "\<lambda>s. decoded s @ queuedChunks s = chunks
       \<and> mset (observed s) + mset (held s) = mset (map f (decoded s))
       \<and> result s = successes (observed s)
       \<and> f_lastErr s = last_failure (observed s)
       \<and> loop_i s = length (observed s)"], goal_cases)
  case 1
  show ?case
    by (simp add: fetch_init_def held_def successes_def last_failure_def failures_def)
next
  case (2 s ev)
  then show ?case using fetch_step_inv[of s chunks f n ev] by blast
qed

lemma length_holding_fetch_step:
  "length (holding (fetch_step n f ev s)) = length (holding s)"
  by (rule fetch_step_cases[of n f ev s]) simp_all

lemma length_holding_fetch_run:
  "length (holding (fetch_run n f sched s)) = length (holding s)"
  by (rule fetch_run_invariant[where P = "\<lambda>s'. length (holding s') = length (holding s)"])
     (simp_all add: length_holding_fetch_step)

lemma fetch_completion:
  fixes chunks :: "'c list" and f :: "'c \<Rightarrow> 'e + 'c"
  assumes s: "s = fetch_run (length chunks) f sched (fetch_init maxParallel chunks)"
    and fin: "\<not> loop_i s < length chunks"
  shows "mset (observed s) = mset (map f chunks)" and "decoded s = chunks"
    and "result s = successes (observed s)" and "f_lastErr s = last_failure (observed s)"
    and "loop_i s = length chunks"
proof -
  note i = fetch_run_inv[OF s]
  from i have c: "loop_i s + length (held s) + length (queuedChunks s) = length chunks"
    by (intro fetch_counts) simp_all
  with fin have "length (held s) = 0" and "length (queuedChunks s) = 0" by linarith+
  then have h: "held s = []" and q: "queuedChunks s = []" by simp_all
  from i q show "decoded s = chunks" by simp
  with i h show "mset (observed s) = mset (map f chunks)" by simp
  from i show "result s = successes (observed s)" by simp
  from i show "f_lastErr s = last_failure (observed s)" by simp
  from c h q show "loop_i s = length chunks" by simp
qed

subsection \<open>Results of the fetch\<close>

lemma mset_concat_map:
  "mset (concat (map g xs)) = (\<Sum>x\<in>#mset xs. mset (g x))"
  by (induction xs) simp_all

lemma mset_successes_cong: "mset xs = mset ys \<Longrightarrow> mset (successes xs) = mset (successes ys)"
  by (simp add: successes_def mset_concat_map)

lemma mset_failures_cong: "mset xs = mset ys \<Longrightarrow> mset (failures xs) = mset (failures ys)"
  by (simp add: failures_def mset_concat_map)

lemma length_successes_failures: "length (successes xs) + length (failures xs) = length xs"
  by (induction xs) (auto simp: successes_def failures_def split: sum.splits)

lemma last_failure_None_iff: "last_failure xs = None \<longleftrightarrow> failures xs = []"
  by (simp add: last_failure_alt)

lemma fetch_step_no_worker: "holding s = [] \<Longrightarrow> fetch_step n f ev s = s"
  by (cases ev) simp_all

lemma fetch_run_no_worker: "holding s = [] \<Longrightarrow> fetch_run n f sched s = s"
  by (induction sched) (simp_all add: fetch_step_no_worker)

lemma GetParallelChunks_no_worker:
  assumes "maxParallel \<le> 0" "chunks \<noteq> []"
  shows "GetParallelChunks None maxParallel chunks f sched = None"
proof -
  have "min_int maxParallel (int (length chunks)) \<le> 0"
  proof (cases "maxParallel < int (length chunks)")
    case True
    with assms(1) show ?thesis by (simp only: min_int_def if_True)
  next
    case False
    with assms(1) have "int (length chunks) \<le> 0" by linarith
    with False show ?thesis by (simp only: min_int_def if_False)
  qed
  then have "holding (fetch_init maxParallel chunks :: ('a, 'b) fetch_state) = []"
    by (simp add: fetch_init_def)
  then have "fetch_run (length chunks) f sched (fetch_init maxParallel chunks)
      = fetch_init maxParallel chunks"
    by (rule fetch_run_no_worker)
  then show ?thesis
    using assms(2) by (simp add: GetParallelChunks_def fetch_init_def)
qed

lemma GetParallelChunks_result:
  assumes "GetParallelChunks None maxParallel chunks f sched = Some res"
  shows "mset (outcomes res) = mset (map f chunks)"
    and "decode_calls res = chunks"
    and "chunks_out res = Some (successes (outcomes res))"
    and "err_out res = last_failure (outcomes res)"
proof -
  let ?s = "fetch_run (length chunks) f sched (fetch_init maxParallel chunks)"
  from assms have fin: "\<not> loop_i ?s < length chunks"
    and res: "res = \<lparr>chunks_out = Some (result ?s), err_out = f_lastErr ?s,
                     outcomes = observed ?s, decode_calls = decoded ?s\<rparr>"
    by (simp_all add: GetParallelChunks_def Let_def split: if_splits)
  note c = fetch_completion[OF refl fin]
  show "mset (outcomes res) = mset (map f chunks)" unfolding res using c(1) by simp
  show "decode_calls res = chunks" unfolding res using c(2) by simp
  show "chunks_out res = Some (successes (outcomes res))" unfolding res using c(3) by simp
  show "err_out res = last_failure (outcomes res)" unfolding res using c(4) by simp
qed

lemma GetParallelChunks_extends:
  assumes "1 \<le> maxParallel \<or> chunks = []"
  shows "\<exists>sched'. GetParallelChunks None maxParallel chunks f (sched @ sched') \<noteq> None"
proof (cases "chunks = []")
  case True
  then show ?thesis by (simp add: GetParallelChunks_def Let_def)
next
  case False
  with assms have m: "1 \<le> maxParallel" by simp
  let ?s = "fetch_run (length chunks) f sched (fetch_init maxParallel chunks)"
  note i = fetch_run_inv[of ?s "length chunks" f sched maxParallel chunks, OF refl]
  have "0 < length (holding (fetch_init maxParallel chunks :: ('a, 'b) fetch_state))"
    using m False by (simp add: fetch_init_def min_int_def)
  then have w: "0 < length (holding ?s)" by (simp add: length_holding_fetch_run)
  from i w have "\<exists>sched'. \<not> loop_i (fetch_run (length chunks) f sched' ?s) < length chunks"
    by (intro fetch_completes) simp_all
  then obtain sched' where "\<not> loop_i (fetch_run (length chunks) f sched' ?s) < length chunks"
    by blast
  then have "GetParallelChunks None maxParallel chunks f (sched @ sched') \<noteq> None"
    by (simp add: GetParallelChunks_def fetch_run_append Let_def)
  then show ?thesis by (rule exI)
qed

text \<open>
  C2, as stated, at \<open>maxParallel = 0\<close> with one chunk: no worker is spawned, no
  step is ever enabled, and under no schedule does the coordinator leave its loop.
\<close>

theorem GetParallelChunks_no_worker_counterexample:
  "\<not> (\<exists>sched res. GetParallelChunks None 0 [0 :: nat] (Inr :: nat \<Rightarrow> string + nat) sched = Some res)"
  by (simp add: GetParallelChunks_no_worker)

text \<open>
  C2, amended. A call that passes the context check with \<open>maxParallel \<ge> 1\<close>, or with
  no chunks: every schedule of the workers can be continued to one after which the
  call has returned. Whenever a call has returned, the coordinator has received
  exactly one outcome for each chunk, \<open>f\<close> was called once on each chunk, the
  returned list is the successfully decoded chunks (in order of arrival), and the
  returned error is the last error received, \<open>nil\<close> exactly when no call of \<open>f\<close>
  failed. With 5 chunks, \<open>maxParallel = 2\<close> and one failing chunk the list has
  length 4 and the error is not \<open>nil\<close>.
\<close>

theorem GetParallelChunks_collects_every_outcome:
  "(1 \<le> maxParallel \<or> chunks = [] \<longrightarrow>
      (\<exists>sched'. GetParallelChunks None maxParallel chunks f (sched_a @ sched') \<noteq> None))
   \<and> (GetParallelChunks None maxParallel chunks f sched = Some res \<longrightarrow>
        length (outcomes res) = length chunks
        \<and> mset (outcomes res) = mset (map f chunks)
        \<and> decode_calls res = chunks
        \<and> chunks_out res = Some (successes (outcomes res))
        \<and> mset (successes (outcomes res)) = mset (successes (map f chunks))
        \<and> length (successes (outcomes res)) = length (successes (map f chunks))
        \<and> err_out res = last_failure (outcomes res)
        \<and> (err_out res = None \<longleftrightarrow> failures (map f chunks) = []))
   \<and> (GetParallelChunks None 2 chunks f sched_b = Some res_b \<and> length chunks = 5
        \<and> length (failures (map f chunks)) = 1 \<longrightarrow>
        (\<exists>cs. chunks_out res_b = Some cs \<and> length cs = 4) \<and> err_out res_b \<noteq> None)"
proof -
  have 1: "\<exists>sched'. GetParallelChunks None maxParallel chunks f (sched_a @ sched') \<noteq> None"
    if "1 \<le> maxParallel \<or> chunks = []"
    using that by (rule GetParallelChunks_extends)
  have 2: "length (outcomes r) = length chunks
        \<and> mset (outcomes r) = mset (map f chunks)
        \<and> decode_calls r = chunks
        \<and> chunks_out r = Some (successes (outcomes r))
        \<and> mset (successes (outcomes r)) = mset (successes (map f chunks))
        \<and> length (successes (outcomes r)) = length (successes (map f chunks))
        \<and> err_out r = last_failure (outcomes r)
        \<and> (err_out r = None \<longleftrightarrow> failures (map f chunks) = [])"
    if a: "GetParallelChunks None m chunks f sc = Some r" for m sc r
  proof -
    note g = GetParallelChunks_result[OF a]
    have l: "length (outcomes r) = length chunks"
      using g(1) by (metis length_map mset_eq_length)
    have ms: "mset (successes (outcomes r)) = mset (successes (map f chunks))"
      using g(1) by (rule mset_successes_cong)
    then have ls: "length (successes (outcomes r)) = length (successes (map f chunks))"
      by (rule mset_eq_length)
    have "mset (failures (outcomes r)) = mset (failures (map f chunks))"
      using g(1) by (rule mset_failures_cong)
    then have "failures (outcomes r) = [] \<longleftrightarrow> failures (map f chunks) = []"
      by (metis mset_zero_iff)
    then have e: "err_out r = None \<longleftrightarrow> failures (map f chunks) = []"
      unfolding g(4) last_failure_None_iff .
    from l g ms ls e show ?thesis by blast
  qed
  have 3: "(\<exists>cs. chunks_out res_b = Some cs \<and> length cs = 4) \<and> err_out res_b \<noteq> None"
    if a: "GetParallelChunks None 2 chunks f sched_b = Some res_b \<and> length chunks = 5
        \<and> length (failures (map f chunks)) = 1"
  proof -
    from a have r: "GetParallelChunks None 2 chunks f sched_b = Some res_b"
      and n5: "length chunks = 5" and f1: "length (failures (map f chunks)) = 1" by simp_all
    note g = GetParallelChunks_result[OF r]
    have "length (successes (map f chunks)) + length (failures (map f chunks)) = length (map f chunks)"
      by (rule length_successes_failures)
    with n5 f1 have s4: "length (successes (map f chunks)) = 4" by simp
    have "mset (successes (outcomes res_b)) = mset (successes (map f chunks))"
      using g(1) by (rule mset_successes_cong)
    then have "length (successes (outcomes res_b)) = length (successes (map f chunks))"
      by (rule mset_eq_length)
    with s4 g(3) have c: "\<exists>cs. chunks_out res_b = Some cs \<and> length cs = 4" by simp
    have "mset (failures (outcomes res_b)) = mset (failures (map f chunks))"
      using g(1) by (rule mset_failures_cong)
    then have "length (failures (outcomes res_b)) = length (failures (map f chunks))"
      by (rule mset_eq_length)
    with f1 have "failures (outcomes res_b) \<noteq> []" by auto
    then have "err_out res_b \<noteq> None"
      unfolding g(4) last_failure_None_iff .
    with c show ?thesis by (rule conjI)
  qed
  from 1 2[of maxParallel sched res] 3 show ?thesis by blast
qed

lemma example_fetch:
  "GetParallelChunks None 2 [0, 1, 2, 3, 4 :: nat]
     (\<lambda>c. if c = 2 then Inl ''decode failed'' else Inr c)
     [Take 0, Take 1, Deliver 1, Deliver 0, Take 1, Take 0, Deliver 0, Deliver 1, Take 0, Deliver 0]
   = Some \<lparr>chunks_out = Some [1, 0, 3, 4], err_out = Some ''decode failed'',
            outcomes = [Inr 1, Inr 0, Inr 3, Inl ''decode failed'', Inr 4],
            decode_calls = [0, 1, 2, 3, 4]\<rparr>"
  by (simp add: GetParallelChunks_def fetch_init_def min_int_def Let_def numeral_2_eq_2)

theorem GetParallelChunks_collects_every_outcome_witness:
  "GetParallelChunks None 2 [0, 1, 2, 3, 4 :: nat]
     (\<lambda>c. if c = 2 then Inl ''decode failed'' else Inr c)
     [Take 0, Take 1, Deliver 1, Deliver 0, Take 1, Take 0, Deliver 0, Deliver 1, Take 0, Deliver 0]
   = Some \<lparr>chunks_out = Some [1, 0, 3, 4], err_out = Some ''decode failed'',
            outcomes = [Inr 1, Inr 0, Inr 3, Inl ''decode failed'', Inr 4],
            decode_calls = [0, 1, 2, 3, 4]\<rparr>
   \<and> (\<exists>cs. Some [1, 0, 3, 4 :: nat] = Some cs \<and> length cs = 4)
   \<and> Some ''decode failed'' \<noteq> None
   \<and> (\<exists>sched'. GetParallelChunks None 2 [0, 1, 2, 3, 4 :: nat]
          (\<lambda>c. if c = 2 then Inl ''decode failed'' else Inr c) ([Take 0, Take 1] @ sched') \<noteq> None)"
proof -
  let ?f = "\<lambda>c :: nat. if c = 2 then Inl ''decode failed'' else Inr c"
  let ?sched = "[Take 0, Take 1, Deliver 1, Deliver 0, Take 1, Take 0, Deliver 0, Deliver 1,
                 Take 0, Deliver 0]"
  let ?res = "\<lparr>chunks_out = Some [1, 0, 3, 4 :: nat], err_out = Some ''decode failed'',
            outcomes = [Inr 1, Inr 0, Inr 3, Inl ''decode failed'', Inr 4],
            decode_calls = [0, 1, 2, 3, 4 :: nat]\<rparr>"
  note T = GetParallelChunks_collects_every_outcome[where maxParallel = 2
      and chunks = "[0, 1, 2, 3, 4 :: nat]" and f = ?f and sched_b = ?sched and res_b = ?res
      and sched_a = "[Take 0, Take 1]"]
  have h: "GetParallelChunks None 2 [0, 1, 2, 3, 4 :: nat] ?f ?sched = Some ?res
      \<and> length [0, 1, 2, 3, 4 :: nat] = 5
      \<and> length (failures (map ?f [0, 1, 2, 3, 4 :: nat])) = 1"
    using example_fetch by (simp add: failures_def)
  have p: "(1::int) \<le> 2 \<or> [0, 1, 2, 3, 4 :: nat] = []" by simp
  from T[THEN conjunct2, THEN conjunct2, THEN mp, OF h]
  have a: "(\<exists>cs. Some [1, 0, 3, 4 :: nat] = Some cs \<and> length cs = 4)"
    and b: "Some ''decode failed'' \<noteq> None"
    by simp_all
  note c = T[THEN conjunct1, THEN mp, OF p]
  from example_fetch a b c show ?thesis by (intro conjI)
qed

text \<open>
  C7. When \<open>ctx.Err()\<close> is not \<open>nil\<close> on entry, \<open>GetParallelChunks\<close> returns the nil
  slice and that error, whatever the other arguments and the schedule: nothing
  has been received and \<open>f\<close> has not been called.
\<close>

theorem GetParallelChunks_cancelled_context:
  "ctxErr \<noteq> None \<longrightarrow>
     GetParallelChunks ctxErr maxParallel chunks f sched
       = Some \<lparr>chunks_out = None, err_out = ctxErr, outcomes = [], decode_calls = []\<rparr>"
  by (simp add: GetParallelChunks_def)

theorem GetParallelChunks_cancelled_context_witness:
  "GetParallelChunks (Some ''context canceled'') 2 [0, 1, 2 :: nat]
     (Inr :: nat \<Rightarrow> string + nat) [Take 0, Deliver 0]
   = Some \<lparr>chunks_out = None, err_out = Some ''context canceled'', outcomes = [],
            decode_calls = []\<rparr>"
proof -
  have h: "Some ''context canceled'' \<noteq> None" by simp
  show ?thesis
    by (rule GetParallelChunks_cancelled_context[THEN mp, OF h])
qed

section \<open>Properties of the shard annotation check\<close>

lemma is_power_of_two_imp_pow: "is_power_of_two n \<Longrightarrow> \<exists>k. n = 2 ^ k"
proof (induction n rule: is_power_of_two.induct)
  case (1 n)
  show ?case
  proof (cases "n = 1")
    case True
    then have "n = 2 ^ 0" by simp
    then show ?thesis by blast
  next
    case False
    from 1(2) have n0: "n \<noteq> 0" by (subst (asm) is_power_of_two.simps) (simp split: if_splits)
    from 1(2) False n0 have ev: "\<not> odd n" and h: "is_power_of_two (n div 2)"
      by (subst (asm) is_power_of_two.simps, simp split: if_splits)+
    from 1(1)[OF n0 False ev h] obtain k where "n div 2 = 2 ^ k" by blast
    with ev have "n = 2 ^ Suc k" by auto
    then show ?thesis by blast
  qed
qed

lemma pow_imp_is_power_of_two: "is_power_of_two (2 ^ k)"
proof (induction k)
  case 0
  show ?case by (subst is_power_of_two.simps) simp
next
  case (Suc k)
  have "(2::nat) ^ Suc k \<noteq> 0" "(2::nat) ^ Suc k \<noteq> 1" "\<not> odd ((2::nat) ^ Suc k)"
    "(2::nat) ^ Suc k div 2 = 2 ^ k"
    by simp_all
  with Suc show ?case by (subst is_power_of_two.simps) (simp del: power_Suc)
qed

lemma is_power_of_two_iff: "is_power_of_two n \<longleftrightarrow> (\<exists>k. n = 2 ^ k)"
  using is_power_of_two_imp_pow pow_imp_is_power_of_two by blast

lemma not_is_power_of_two_3: "\<not> is_power_of_two 3"
  by (subst is_power_of_two.simps) simp

text \<open>
  C8. \<open>GetChunkRefs\<close> with a shard annotation whose count is not a power of two
  (such as index 1 of count 3) fails with the configuration error and leaves the
  store's state as it was, whatever the query would do: the query is not executed.
  With a count that is a power of two the call gives what the query gives.
  \<open>is_power_of_two\<close> holds exactly of the numbers \<open>2 ^ k\<close>.
\<close>

theorem GetChunkRefs_rejects_bad_shard_count:
  "(\<not> is_power_of_two (shard_count sh) \<longrightarrow>
      GetChunkRefs execute (Some sh) s = (Inl ConfigurationError, s))
   \<and> (is_power_of_two (shard_count sh) \<longrightarrow>
      GetChunkRefs execute (Some sh) s
        = (case execute (Some sh) s of
             (Inl e, s') \<Rightarrow> (Inl (BackendError e), s')
           | (Inr refs, s') \<Rightarrow> (Inr refs, s')))
   \<and> (is_power_of_two n \<longleftrightarrow> (\<exists>k. n = 2 ^ k))
   \<and> GetChunkRefs execute (Some \<lparr>shard_index = 1, shard_count = 3\<rparr>) s
       = (Inl ConfigurationError, s)"
  using is_power_of_two_iff[of n]
  by (simp add: GetChunkRefs_def not_is_power_of_two_3)

theorem GetChunkRefs_rejects_bad_shard_count_witness:
  "GetChunkRefs (\<lambda>sh s. (Inr [] :: string + ChunkRef list, Suc s))
     (Some \<lparr>shard_index = 1, shard_count = 3\<rparr>) (0 :: nat)
     = (Inl ConfigurationError, 0)
   \<and> GetChunkRefs (\<lambda>sh s. (Inr [] :: string + ChunkRef list, Suc s))
     (Some \<lparr>shard_index = 3, shard_count = 4\<rparr>) (0 :: nat)
     = (Inr [], 1)"
proof -
  let ?ex = "\<lambda>(sh :: ShardAnnotation option) (s :: nat). (Inr [] :: string + ChunkRef list, Suc s)"
  have n3: "\<not> is_power_of_two (shard_count \<lparr>shard_index = 1, shard_count = 3\<rparr>)"
    by (simp add: not_is_power_of_two_3)
  have p4: "is_power_of_two (shard_count \<lparr>shard_index = 3, shard_count = 4\<rparr>)"
    using pow_imp_is_power_of_two[of 2] by simp
  have a: "GetChunkRefs ?ex (Some \<lparr>shard_index = 1, shard_count = 3\<rparr>) 0 = (Inl ConfigurationError, 0)"
    by (rule GetChunkRefs_rejects_bad_shard_count[THEN conjunct1, THEN mp, OF n3])
  have "GetChunkRefs ?ex (Some \<lparr>shard_index = 3, shard_count = 4\<rparr>) 0
      = (case ?ex (Some \<lparr>shard_index = 3, shard_count = 4\<rparr>) 0 of
             (Inl e, s') \<Rightarrow> (Inl (BackendError e), s')
           | (Inr refs, s') \<Rightarrow> (Inr refs, s'))"
    by (rule GetChunkRefs_rejects_bad_shard_count[THEN conjunct2, THEN conjunct1, THEN mp, OF p4])
  then have b: "GetChunkRefs ?ex (Some \<lparr>shard_index = 3, shard_count = 4\<rparr>) 0 = (Inr [], 1)"
    by simp
  from a b show ?thesis by (rule conjI)
qed

end
